theory Spec2Isabelle
  imports Main "HOL-Library.Word"
begin

unbundle bit_operations_syntax

section \<open>Machine integers and errors\<close>

text \<open>
  Every \<^verbatim>\<open>uint64_t\<close> of the source is a \<^typ>\<open>64 word\<close>: addition, subtraction and
  multiplication wrap modulo \<open>2 ^ 64\<close>, comparison is unsigned.  Template parameters
  (\<^verbatim>\<open>BitShift\<close>, \<^verbatim>\<open>InputModFactor\<close>) and loop counters that index
  arrays are natural numbers: they never come near the 64-bit range.

  A failing \<^verbatim>\<open>HEXL_CHECK\<close> / \<^verbatim>\<open>LATTICE_CHECK\<close>, a division by zero, a
  dereferenced null pointer and an array access out of range are values of the type
  \<open>error\<close>; a function that can fail returns \<open>error + 'a\<close> with \<open>Inl\<close> for the
  failure.
\<close>

type_synonym u64 = "64 word"

datatype error =
    InvalidArguments
  | UnsupportedShift
  | OperandTooLarge
  | DivisionByZero
  | NullPointer
  | OutOfBounds
  | InternalRangeViolation
  | NoInverse

section \<open>Integer primitives\<close>

text \<open>
  Modelled from the spec: \<^verbatim>\<open>MultiplyUInt64Hi<S>(a, b)\<close> is declared outside the
  sources at hand.  Section 4.1 of the specification: it "returns the high 64 bits of the
  128-bit product a*b after a logical right shift by S".
\<close>

definition MultiplyUInt64Hi :: "nat \<Rightarrow> u64 \<Rightarrow> u64 \<Rightarrow> u64" where
  "MultiplyUInt64Hi S a b = word_of_nat ((unat a * unat b) div 2 ^ S)"

text \<open>
  Modelled from the spec: \<^verbatim>\<open>DivideUInt128UInt64Lo(hi, lo, d)\<close> is declared outside
  the sources at hand.  Section 4.1: it "returns the low 64 bits of ((hi:lo) / d)" and
  "requires d > 0"; the division by zero is an error of the model.
\<close>

definition DivideUInt128UInt64Lo :: "u64 \<Rightarrow> u64 \<Rightarrow> u64 \<Rightarrow> error + u64" where
  "DivideUInt128UInt64Lo hi lo d =
     (if d = 0 then Inl DivisionByZero
      else Inr (word_of_nat ((unat hi * 2 ^ 64 + unat lo) div unat d)))"

text \<open>\<^verbatim>\<open>MaximumValue(bits)\<close>, number-theory.hpp lines 64-70.\<close>

definition MaximumValue :: "nat \<Rightarrow> error + u64" where
  "MaximumValue bits =
     (if \<not> bits \<le> 64 then Inl InvalidArguments
      else if bits = 64 then Inr (- 1)
      else Inr (push_bit bits 1 - 1))"

section \<open>The Barrett factor\<close>

text \<open>
  The class \<^verbatim>\<open>MultiplyFactor\<close> (number-theory.hpp lines 19-51) with its two
  private fields, its constructor and its two accessors.
\<close>

record MultiplyFactor =
  m_operand :: u64
  m_barrett_factor :: u64

definition MultiplyFactor_new :: "u64 \<Rightarrow> nat \<Rightarrow> u64 \<Rightarrow> error + MultiplyFactor" where
  "MultiplyFactor_new operand bit_shift modulus =
     (if \<not> operand \<le> modulus then Inl OperandTooLarge
      else if \<not> (bit_shift = 32 \<or> bit_shift = 52 \<or> bit_shift = 64) then Inl UnsupportedShift
      else
        let op_hi = drop_bit (64 - bit_shift) operand;
            op_lo = (if bit_shift = 64 then 0 else push_bit bit_shift operand)
        in case DivideUInt128UInt64Lo op_hi op_lo modulus of
             Inl e \<Rightarrow> Inl e
           | Inr f \<Rightarrow> Inr \<lparr>m_operand = operand, m_barrett_factor = f\<rparr>)"

definition BarrettFactor :: "MultiplyFactor \<Rightarrow> u64" where
  "BarrettFactor mf = m_barrett_factor mf"

definition Operand :: "MultiplyFactor \<Rightarrow> u64" where
  "Operand mf = m_operand mf"

section \<open>Modular arithmetic\<close>

text \<open>
  \<^verbatim>\<open>MultiplyModLazy<BitShift>(x, y_operand, y_barrett_factor, modulus)\<close>,
  number-theory.hpp lines 127-141.  The three checks come first, in the order of the
  source; the result is computed in wrapping 64-bit arithmetic.
\<close>

definition MultiplyModLazy :: "nat \<Rightarrow> u64 \<Rightarrow> u64 \<Rightarrow> u64 \<Rightarrow> u64 \<Rightarrow> error + u64" where
  "MultiplyModLazy BitShift x y_operand y_barrett_factor modulus =
     (if \<not> y_operand < modulus then Inl InvalidArguments
      else case MaximumValue BitShift of
        Inl e \<Rightarrow> Inl e
      | Inr mx \<Rightarrow>
          if \<not> modulus \<le> mx then Inl InvalidArguments
          else if \<not> x \<le> mx then Inl InvalidArguments
          else
            let Q = MultiplyUInt64Hi BitShift x y_barrett_factor
            in Inr (y_operand * x - Q * modulus))"

text \<open>
  The three-argument overload, number-theory.hpp lines 148-162: it builds the Barrett
  factor of \<open>y\<close> and calls the overload above.
\<close>

definition MultiplyModLazy3 :: "nat \<Rightarrow> u64 \<Rightarrow> u64 \<Rightarrow> u64 \<Rightarrow> error + u64" where
  "MultiplyModLazy3 BitShift x y modulus =
     (if \<not> (BitShift = 64 \<or> BitShift = 52) then Inl UnsupportedShift
      else case MaximumValue BitShift of
        Inl e \<Rightarrow> Inl e
      | Inr mx \<Rightarrow>
          if \<not> x \<le> mx then Inl InvalidArguments
          else if \<not> y < modulus then Inl InvalidArguments
          else if \<not> modulus \<le> mx then Inl InvalidArguments
          else case MultiplyFactor_new y BitShift modulus of
            Inl e \<Rightarrow> Inl e
          | Inr mf \<Rightarrow> MultiplyModLazy BitShift x y (BarrettFactor mf) modulus)"

text \<open>\<^verbatim>\<open>BarrettReduce64(input, modulus, q_barr)\<close>, number-theory.hpp lines 195-201.\<close>

definition BarrettReduce64 :: "u64 \<Rightarrow> u64 \<Rightarrow> u64 \<Rightarrow> error + u64" where
  "BarrettReduce64 input modulus q_barr =
     (if \<not> modulus \<noteq> 0 then Inl InvalidArguments
      else
        let q = MultiplyUInt64Hi 64 input q_barr;
            q_times_input = input - q * modulus
        in Inr (if q_times_input \<ge> modulus then q_times_input - modulus else q_times_input))"

text \<open>
  \<^verbatim>\<open>ReduceMod<InputModFactor>(x, modulus, twice_modulus, four_times_modulus)\<close>,
  number-theory.hpp lines 210-254.  The two pointer arguments are options: \<open>None\<close> is
  the null pointer.
\<close>

definition ReduceMod :: "nat \<Rightarrow> u64 \<Rightarrow> u64 \<Rightarrow> u64 option \<Rightarrow> u64 option \<Rightarrow> error + u64" where
  "ReduceMod InputModFactor x modulus twice_modulus four_times_modulus =
     (if \<not> (InputModFactor = 1 \<or> InputModFactor = 2 \<or> InputModFactor = 4 \<or> InputModFactor = 8)
      then Inl InvalidArguments
      else if InputModFactor = 1 then Inr x
      else if InputModFactor = 2 then
        Inr (if x \<ge> modulus then x - modulus else x)
      else if InputModFactor = 4 then
        (case twice_modulus of
           None \<Rightarrow> Inl NullPointer
         | Some tm \<Rightarrow>
             let x1 = (if x \<ge> tm then x - tm else x);
                 x2 = (if x1 \<ge> modulus then x1 - modulus else x1)
             in Inr x2)
      else
        (case twice_modulus of
           None \<Rightarrow> Inl NullPointer
         | Some tm \<Rightarrow>
            (case four_times_modulus of
               None \<Rightarrow> Inl NullPointer
             | Some fm \<Rightarrow>
                 let x1 = (if x \<ge> fm then x - fm else x);
                     x2 = (if x1 \<ge> tm then x1 - tm else x1);
                     x3 = (if x2 \<ge> modulus then x2 - modulus else x2)
                 in Inr x3)))"

text \<open>
  Modelled from the spec: the four-argument \<^verbatim>\<open>MultiplyMod(x, y, y_precon, modulus)\<close>
  is only declared in number-theory.hpp (lines 91-92).  Section 4.2: it "computes
  Q = hi64(x * y_precon) then x*y - Q*q, followed by one conditional subtract".
\<close>

definition MultiplyMod4 :: "u64 \<Rightarrow> u64 \<Rightarrow> u64 \<Rightarrow> u64 \<Rightarrow> u64" where
  "MultiplyMod4 x y y_precon modulus =
     (let Q = MultiplyUInt64Hi 64 x y_precon;
          r = x * y - Q * modulus
      in if r \<ge> modulus then r - modulus else r)"

text \<open>
  Modelled from the spec: the three-argument \<^verbatim>\<open>MultiplyMod(x, y, modulus)\<close>
  (\<^verbatim>\<open>MultiplyUIntMod\<close> in ntt.cpp) is only declared (number-theory.hpp line 84):
  "Returns (x * y) mod modulus", the full 128-bit product reduced to \<open>[0, q)\<close>.
\<close>

definition MultiplyMod :: "u64 \<Rightarrow> u64 \<Rightarrow> u64 \<Rightarrow> u64" where
  "MultiplyMod x y modulus = word_of_nat ((unat x * unat y) mod unat modulus)"

text \<open>
  Modelled from the spec: \<^verbatim>\<open>AddUIntMod(x, y, modulus)\<close> is only declared
  (number-theory.hpp line 96): "Returns (x + y) mod modulus".
\<close>

definition AddUIntMod :: "u64 \<Rightarrow> u64 \<Rightarrow> u64 \<Rightarrow> u64" where
  "AddUIntMod x y modulus = word_of_nat ((unat x + unat y) mod unat modulus)"

text \<open>
  Modelled from the spec: \<^verbatim>\<open>SubUIntMod(x, y, modulus)\<close> is only declared
  (number-theory.hpp line 100).  Section 4.2: it "returns (x-y) mod q; implemented as
  (x + q - y) then conditional subtract".
\<close>

definition SubUIntMod :: "u64 \<Rightarrow> u64 \<Rightarrow> u64 \<Rightarrow> u64" where
  "SubUIntMod x y modulus =
     (let d = x + modulus - y in if d \<ge> modulus then d - modulus else d)"

text \<open>
  Modelled from the spec: \<^verbatim>\<open>InverseMod(x, modulus)\<close> (\<^verbatim>\<open>InverseUIntMod\<close> in
  ntt.cpp) is only declared (number-theory.hpp line 80).  Section 4.2: "extended-Euclid
  modular inverse; fails with NoInverse if gcd(x,q) \<noteq> 1".  The B\'ezout coefficient of
  \<open>x\<close> comes from the extended Euclidean algorithm \<^const>\<open>bezw\<close> of the library.
\<close>

definition InverseMod :: "u64 \<Rightarrow> u64 \<Rightarrow> error + u64" where
  "InverseMod x modulus =
     (if gcd (unat x) (unat modulus) \<noteq> 1 then Inl NoInverse
      else Inr (word_of_int (fst (bezw (unat x) (unat modulus)) mod int (unat modulus))))"

text \<open>\<^verbatim>\<open>IsPowerOfTwo(num)\<close>, number-theory.hpp line 54.\<close>

definition IsPowerOfTwo :: "u64 \<Rightarrow> bool" where
  "IsPowerOfTwo num = (num \<noteq> 0 \<and> \<not> ((num AND (num - 1)) \<noteq> 0))"

section \<open>Element-wise fused multiply-add\<close>

text \<open>
  The kernels of eltwise-fma.cpp work through raw pointers, and what they store depends
  on whether \<^verbatim>\<open>out\<close> overlaps an input.  Memory is therefore a store from addresses
  to 64-bit words; an address counts 64-bit cells, so \<^verbatim>\<open>p++\<close> is \<open>p + 1\<close>.  A
  pointer that may be null is an option.
\<close>

type_synonym addr = nat
type_synonym memory = "addr \<Rightarrow> u64"

text \<open>
  The loop of lines 63-66 (\<^verbatim>\<open>arg3\<close> present); the first argument counts the
  iterations left.  Its body is two statements: the product is stored to \<^verbatim>\<open>*out\<close>,
  then \<^verbatim>\<open>*out\<close> is overwritten with \<^verbatim>\<open>AddUIntMod(*arg1, *arg3, modulus)\<close>, both
  operands read after the first store.
\<close>

fun fma_loop_arg3 :: "nat \<Rightarrow> addr \<Rightarrow> u64 \<Rightarrow> addr \<Rightarrow> addr \<Rightarrow> u64 \<Rightarrow> u64 \<Rightarrow> memory \<Rightarrow> memory" where
  "fma_loop_arg3 0 arg1 arg2 arg3 out bf modulus mem = mem"
| "fma_loop_arg3 (Suc k) arg1 arg2 arg3 out bf modulus mem =
     (let mem1 = mem(out := MultiplyMod4 (mem arg1) arg2 bf modulus);
          mem2 = mem1(out := AddUIntMod (mem1 arg1) (mem1 arg3) modulus)
      in fma_loop_arg3 k (arg1 + 1) arg2 (arg3 + 1) (out + 1) bf modulus mem2)"

text \<open>The loop of lines 71-73 (\<^verbatim>\<open>arg3 == nullptr\<close>).\<close>

fun fma_loop_null :: "nat \<Rightarrow> addr \<Rightarrow> u64 \<Rightarrow> addr \<Rightarrow> u64 \<Rightarrow> u64 \<Rightarrow> memory \<Rightarrow> memory" where
  "fma_loop_null 0 arg1 arg2 out bf modulus mem = mem"
| "fma_loop_null (Suc k) arg1 arg2 out bf modulus mem =
     fma_loop_null k (arg1 + 1) arg2 (out + 1) bf modulus
       (mem(out := MultiplyMod4 (mem arg1) arg2 bf modulus))"

text \<open>\<^verbatim>\<open>EltwiseFMAModNative\<close>, eltwise-fma.cpp lines 58-74.\<close>

definition EltwiseFMAModNative ::
  "addr \<Rightarrow> u64 \<Rightarrow> addr option \<Rightarrow> addr \<Rightarrow> nat \<Rightarrow> u64 \<Rightarrow> memory \<Rightarrow> error + memory" where
  "EltwiseFMAModNative arg1 arg2 arg3 out n modulus mem =
     (case MultiplyFactor_new arg2 64 modulus of
        Inl e \<Rightarrow> Inl e
      | Inr mf \<Rightarrow>
         (case arg3 of
            Some a3 \<Rightarrow> Inr (fma_loop_arg3 n arg1 arg2 a3 out (BarrettFactor mf) modulus mem)
          | None \<Rightarrow> Inr (fma_loop_null n arg1 arg2 out (BarrettFactor mf) modulus mem)))"

text \<open>
  Modelled from the spec: the vector kernel \<^verbatim>\<open>EltwiseFMAModAVX512<BitShift>\<close> lives in
  eltwise-fma-avx512.hpp, outside the sources at hand.  Sections 4.6 and 4.7: every path
  computes \<open>out[i] = (arg1[i] * arg2 + arg3[i]) mod q\<close>, or \<open>(arg1[i] * arg2) mod q\<close>
  without \<^verbatim>\<open>arg3\<close>, each output element depending only on index \<open>i\<close> of the inputs.
\<close>

definition EltwiseFMAModAVX512 ::
  "nat \<Rightarrow> addr \<Rightarrow> u64 \<Rightarrow> addr option \<Rightarrow> addr \<Rightarrow> u64 \<Rightarrow> nat \<Rightarrow> u64 \<Rightarrow> memory \<Rightarrow> memory" where
  "EltwiseFMAModAVX512 BitShift arg1 arg2 arg3 out bf n modulus mem =
     (\<lambda>a. if out \<le> a \<and> a < out + n then
            (case arg3 of
               Some a3 \<Rightarrow>
                 word_of_nat ((unat (mem (arg1 + (a - out))) * unat arg2
                                 + unat (mem (a3 + (a - out)))) mod unat modulus)
             | None \<Rightarrow>
                 word_of_nat ((unat (mem (arg1 + (a - out))) * unat arg2) mod unat modulus))
          else mem a)"

text \<open>
  What the preprocessor and the CPU probe decide: the two build macros and the two
  run-time flags that \<^verbatim>\<open>EltwiseFMAMod\<close> reads.
\<close>

record build_config =
  LATTICE_HAS_AVX512IFMA :: bool
  LATTICE_HAS_AVX512DQ :: bool

record cpu_features =
  has_avx512_ifma :: bool
  has_avx512_dq :: bool

text \<open>
  \<^verbatim>\<open>EltwiseFMAMod\<close>, eltwise-fma.cpp lines 32-56.  With \<^verbatim>\<open>LATTICE_HAS_AVX512DQ\<close>
  defined, the \<^verbatim>\<open>return\<close> of line 52 follows the guarded block whether or not the
  guard held.
\<close>

definition EltwiseFMAMod ::
  "build_config \<Rightarrow> cpu_features \<Rightarrow> addr \<Rightarrow> u64 \<Rightarrow> addr option \<Rightarrow> addr \<Rightarrow> nat \<Rightarrow> u64
     \<Rightarrow> memory \<Rightarrow> error + memory" where
  "EltwiseFMAMod build cpu arg1 arg2 arg3 out n modulus mem =
     (if \<not> modulus \<noteq> 0 then Inl InvalidArguments
      else if LATTICE_HAS_AVX512IFMA build \<and> has_avx512_ifma cpu \<and> modulus < push_bit 52 1 then
        (case MultiplyFactor_new arg2 52 modulus of
           Inl e \<Rightarrow> Inl e
         | Inr mf \<Rightarrow>
             Inr (EltwiseFMAModAVX512 52 arg1 arg2 arg3 out (BarrettFactor mf) n modulus mem))
      else if LATTICE_HAS_AVX512DQ build then
        (if has_avx512_dq cpu then
           (case MultiplyFactor_new arg2 64 modulus of
              Inl e \<Rightarrow> Inl e
            | Inr mf \<Rightarrow>
                Inr (EltwiseFMAModAVX512 64 arg1 arg2 arg3 out (BarrettFactor mf) n modulus mem))
         else Inr mem)
      else EltwiseFMAModNative arg1 arg2 arg3 out n modulus mem)"

section \<open>The number-theoretic transform\<close>

text \<open>
  The transforms of ntt.cpp work in place on the array \<^verbatim>\<open>elements\<close> and read the
  root tables; none of them depends on aliasing, so an array is a list.  A read or a
  write outside the array is the error \<open>OutOfBounds\<close>.  ntt.cpp calls the arithmetic by
  its older names: \<^verbatim>\<open>MultiplyUIntModLazy\<close> is \<^verbatim>\<open>MultiplyModLazy\<close>,
  \<^verbatim>\<open>MultiplyUIntMod\<close> is \<^verbatim>\<open>MultiplyMod\<close> and \<^verbatim>\<open>InverseUIntMod\<close> is
  \<^verbatim>\<open>InverseMod\<close>.
\<close>

definition load :: "u64 list \<Rightarrow> nat \<Rightarrow> error + u64" where
  "load xs i = (if i < length xs then Inr (xs ! i) else Inl OutOfBounds)"

definition store :: "u64 list \<Rightarrow> nat \<Rightarrow> u64 \<Rightarrow> error + u64 list" where
  "store xs i v = (if i < length xs then Inr (xs[i := v]) else Inl OutOfBounds)"

text \<open>
  Modelled from the spec: \<^verbatim>\<open>CheckArguments(degree, mod)\<close> is declared in ntt.hpp,
  outside the sources at hand.  Section 7 lists what it rejects: "N not a power of two,
  N < 2, q = 0, q not satisfying q \<equiv> 1 (mod 2N)".
\<close>

definition CheckArguments :: "u64 \<Rightarrow> u64 \<Rightarrow> bool" where
  "CheckArguments degree modulus =
     (IsPowerOfTwo degree \<and> 2 \<le> degree \<and> modulus \<noteq> 0 \<and> modulus mod (2 * degree) = 1)"

subsection \<open>Forward transform\<close>

text \<open>
  The body of the innermost loop of \<^verbatim>\<open>ForwardTransformToBitReverse64\<close>, ntt.cpp
  lines 63-68, with \<open>X\<close> and \<open>Y\<close> the two positions in \<^verbatim>\<open>elements\<close>.  The mask
  \<^verbatim>\<open>static_cast<uint64_t>(-static_cast<int64_t>(*X >= twice_mod))\<close> is all ones or
  zero.
\<close>

definition fwd_butterfly ::
  "u64 \<Rightarrow> u64 \<Rightarrow> u64 \<Rightarrow> u64 \<Rightarrow> nat \<Rightarrow> nat \<Rightarrow> u64 list \<Rightarrow> error + u64 list" where
  "fwd_butterfly modu twice_mod W_op W_precon X Y elements =
     (case load elements X of Inl e \<Rightarrow> Inl e | Inr x \<Rightarrow>
      case load elements Y of Inl e \<Rightarrow> Inl e | Inr y \<Rightarrow>
      let tx = x - (twice_mod AND (- (if x \<ge> twice_mod then 1 else 0))) in
      case MultiplyModLazy 64 y W_op W_precon modu of Inl e \<Rightarrow> Inl e | Inr Q \<Rightarrow>
      case store elements X (tx + Q) of Inl e \<Rightarrow> Inl e | Inr el1 \<Rightarrow>
        store el1 Y (tx + twice_mod - Q))"

text \<open>The loop over \<open>j\<close>, lines 58-69; \<open>X\<close> and \<open>Y\<close> advance with \<open>j\<close>.\<close>

function fwd_loop_j ::
  "u64 \<Rightarrow> u64 \<Rightarrow> u64 \<Rightarrow> u64 \<Rightarrow> nat \<Rightarrow> nat \<Rightarrow> nat \<Rightarrow> nat \<Rightarrow> u64 list \<Rightarrow> error + u64 list" where
  "fwd_loop_j modu twice_mod W_op W_precon j j2 X Y elements =
     (if j < j2 then
        (case fwd_butterfly modu twice_mod W_op W_precon X Y elements of
           Inl e \<Rightarrow> Inl e
         | Inr el \<Rightarrow> fwd_loop_j modu twice_mod W_op W_precon (j + 1) j2 (X + 1) (Y + 1) el)
      else Inr elements)"
  by pat_completeness auto
termination
  by (relation "measure (\<lambda>(modu, twice_mod, W_op, W_precon, j, j2, X, Y, elements). j2 - j)") auto

text \<open>The loop over \<open>i\<close>, lines 46-71.\<close>

function fwd_loop_i ::
  "u64 \<Rightarrow> u64 \<Rightarrow> u64 list \<Rightarrow> u64 list \<Rightarrow> nat \<Rightarrow> nat \<Rightarrow> nat \<Rightarrow> nat \<Rightarrow> u64 list
     \<Rightarrow> error + u64 list" where
  "fwd_loop_i modu twice_mod root_of_unity_powers precon_root_of_unity_powers m t i j1 elements =
     (if i < m then
        (let j2 = j1 + t in
         case load root_of_unity_powers (m + i) of Inl e \<Rightarrow> Inl e | Inr W_op \<Rightarrow>
         case load precon_root_of_unity_powers (m + i) of Inl e \<Rightarrow> Inl e | Inr W_precon \<Rightarrow>
         case fwd_loop_j modu twice_mod W_op W_precon j1 j2 j1 (j1 + t) elements of
           Inl e \<Rightarrow> Inl e
         | Inr el \<Rightarrow>
             fwd_loop_i modu twice_mod root_of_unity_powers precon_root_of_unity_powers
               m t (i + 1) (j1 + 2 * t) el)
      else Inr elements)"
  by pat_completeness auto
termination
  by (relation "measure (\<lambda>(modu, twice_mod, r, p, m, t, i, j1, elements). m - i)") auto

text \<open>
  The loop over \<open>m\<close>, lines 44-73: \<open>m\<close> doubles and \<open>t\<close> halves.  Nothing in the loop
  itself makes \<open>m\<close> positive, so the loop is a partial function: \<open>None\<close> is a run that
  never leaves it.
\<close>

partial_function (option) fwd_loop_m ::
  "u64 \<Rightarrow> u64 \<Rightarrow> u64 list \<Rightarrow> u64 list \<Rightarrow> nat \<Rightarrow> nat \<Rightarrow> nat \<Rightarrow> u64 list
     \<Rightarrow> (error + u64 list) option" where
  "fwd_loop_m modu twice_mod root_of_unity_powers precon_root_of_unity_powers n m t elements =
     (if m < n then
        (case fwd_loop_i modu twice_mod root_of_unity_powers precon_root_of_unity_powers
                m t 0 0 elements of
           Inl e \<Rightarrow> Some (Inl e)
         | Inr el \<Rightarrow>
             fwd_loop_m modu twice_mod root_of_unity_powers precon_root_of_unity_powers
               n (2 * m) (t div 2) el)
      else Some (Inr elements))"

text \<open>
  The final pass, lines 74-83 (and lines 215-224 of the inverse transform): two
  conditional subtractions and the check that the element is reduced.
\<close>

function reduce_loop :: "u64 \<Rightarrow> u64 \<Rightarrow> nat \<Rightarrow> nat \<Rightarrow> u64 list \<Rightarrow> error + u64 list" where
  "reduce_loop modu twice_mod n i elements =
     (if i < n then
        (case load elements i of Inl e \<Rightarrow> Inl e | Inr v \<Rightarrow>
         let v1 = (if v \<ge> twice_mod then v - twice_mod else v);
             v2 = (if v1 \<ge> modu then v1 - modu else v1)
         in if \<not> v2 < modu then Inl InternalRangeViolation
            else case store elements i v2 of
                   Inl e \<Rightarrow> Inl e
                 | Inr el \<Rightarrow> reduce_loop modu twice_mod n (i + 1) el)
      else Inr elements)"
  by pat_completeness auto
termination
  by (relation "measure (\<lambda>(modu, twice_mod, n, i, elements). n - i)") auto

text \<open>\<^verbatim>\<open>NTT::ForwardTransformToBitReverse64\<close>, ntt.cpp lines 32-84.\<close>

definition ForwardTransformToBitReverse64 ::
  "u64 \<Rightarrow> u64 \<Rightarrow> u64 list \<Rightarrow> u64 list \<Rightarrow> u64 list \<Rightarrow> (error + u64 list) option" where
  "ForwardTransformToBitReverse64 degree modu root_of_unity_powers precon_root_of_unity_powers
       elements =
     (if \<not> CheckArguments degree modu then Some (Inl InvalidArguments)
      else
        let twice_mod = push_bit 1 modu;
            n = unat degree;
            t = n div 2
        in case fwd_loop_m modu twice_mod root_of_unity_powers precon_root_of_unity_powers
                  n 1 t elements of
             None \<Rightarrow> None
           | Some (Inl e) \<Rightarrow> Some (Inl e)
           | Some (Inr el) \<Rightarrow> Some (reduce_loop modu twice_mod n 0 el))"

subsection \<open>Reference forward transform\<close>

text \<open>The body of the innermost loop, ntt.cpp lines 101-105.\<close>

definition ref_butterfly :: "u64 \<Rightarrow> u64 \<Rightarrow> nat \<Rightarrow> nat \<Rightarrow> u64 list \<Rightarrow> error + u64 list" where
  "ref_butterfly modu W_op X Y elements =
     (case load elements X of Inl e \<Rightarrow> Inl e | Inr tx \<Rightarrow>
      case load elements Y of Inl e \<Rightarrow> Inl e | Inr y \<Rightarrow>
      let W_x_Y = MultiplyMod y W_op modu in
      case store elements X (AddUIntMod tx W_x_Y modu) of Inl e \<Rightarrow> Inl e | Inr el1 \<Rightarrow>
        store el1 Y (SubUIntMod tx W_x_Y modu))"

function ref_loop_j ::
  "u64 \<Rightarrow> u64 \<Rightarrow> nat \<Rightarrow> nat \<Rightarrow> nat \<Rightarrow> nat \<Rightarrow> u64 list \<Rightarrow> error + u64 list" where
  "ref_loop_j modu W_op j j2 X Y elements =
     (if j < j2 then
        (case ref_butterfly modu W_op X Y elements of
           Inl e \<Rightarrow> Inl e
         | Inr el \<Rightarrow> ref_loop_j modu W_op (j + 1) j2 (X + 1) (Y + 1) el)
      else Inr elements)"
  by pat_completeness auto
termination
  by (relation "measure (\<lambda>(modu, W_op, j, j2, X, Y, elements). j2 - j)") auto

function ref_loop_i ::
  "u64 \<Rightarrow> u64 list \<Rightarrow> nat \<Rightarrow> nat \<Rightarrow> nat \<Rightarrow> nat \<Rightarrow> u64 list \<Rightarrow> error + u64 list" where
  "ref_loop_i modu root_of_unity_powers m t i j1 elements =
     (if i < m then
        (let j2 = j1 + t in
         case load root_of_unity_powers (m + i) of Inl e \<Rightarrow> Inl e | Inr W_op \<Rightarrow>
         case ref_loop_j modu W_op j1 j2 j1 (j1 + t) elements of
           Inl e \<Rightarrow> Inl e
         | Inr el \<Rightarrow> ref_loop_i modu root_of_unity_powers m t (i + 1) (j1 + 2 * t) el)
      else Inr elements)"
  by pat_completeness auto
termination
  by (relation "measure (\<lambda>(modu, r, m, t, i, j1, elements). m - i)") auto

partial_function (option) ref_loop_m ::
  "u64 \<Rightarrow> u64 list \<Rightarrow> nat \<Rightarrow> nat \<Rightarrow> nat \<Rightarrow> u64 list \<Rightarrow> (error + u64 list) option" where
  "ref_loop_m modu root_of_unity_powers degree m t elements =
     (if m < degree then
        (case ref_loop_i modu root_of_unity_powers m t 0 0 elements of
           Inl e \<Rightarrow> Some (Inl e)
         | Inr el \<Rightarrow> ref_loop_m modu root_of_unity_powers degree (2 * m) (t div 2) el)
      else Some (Inr elements))"

text \<open>\<^verbatim>\<open>NTT::ReferenceForwardTransformToBitReverse\<close>, ntt.cpp lines 86-111.\<close>

definition ReferenceForwardTransformToBitReverse ::
  "u64 \<Rightarrow> u64 \<Rightarrow> u64 list \<Rightarrow> u64 list \<Rightarrow> (error + u64 list) option" where
  "ReferenceForwardTransformToBitReverse degree modu root_of_unity_powers elements =
     (if \<not> CheckArguments degree modu then Some (Inl InvalidArguments)
      else
        let t = unat degree div 2
        in ref_loop_m modu root_of_unity_powers (unat degree) 1 t elements)"

subsection \<open>Inverse transform\<close>

text \<open>The body of the innermost loop, ntt.cpp lines 177-181.\<close>

definition inv_butterfly ::
  "u64 \<Rightarrow> u64 \<Rightarrow> u64 \<Rightarrow> nat \<Rightarrow> nat \<Rightarrow> u64 list \<Rightarrow> error + u64 list" where
  "inv_butterfly modu twice_mod W_op X Y elements =
     (case load elements X of Inl e \<Rightarrow> Inl e | Inr x \<Rightarrow>
      case load elements Y of Inl e \<Rightarrow> Inl e | Inr y \<Rightarrow>
      let tx = x + y;
          ty = x + twice_mod - y
      in
      case store elements X (tx - (twice_mod AND (- (if tx \<ge> twice_mod then 1 else 0)))) of
        Inl e \<Rightarrow> Inl e
      | Inr el1 \<Rightarrow>
         (case MultiplyModLazy3 64 ty W_op modu of
            Inl e \<Rightarrow> Inl e
          | Inr v \<Rightarrow> store el1 Y v))"

function inv_loop_j ::
  "u64 \<Rightarrow> u64 \<Rightarrow> u64 \<Rightarrow> nat \<Rightarrow> nat \<Rightarrow> nat \<Rightarrow> nat \<Rightarrow> u64 list \<Rightarrow> error + u64 list" where
  "inv_loop_j modu twice_mod W_op j j2 X Y elements =
     (if j < j2 then
        (case inv_butterfly modu twice_mod W_op X Y elements of
           Inl e \<Rightarrow> Inl e
         | Inr el \<Rightarrow> inv_loop_j modu twice_mod W_op (j + 1) j2 (X + 1) (Y + 1) el)
      else Inr elements)"
  by pat_completeness auto
termination
  by (relation "measure (\<lambda>(modu, twice_mod, W_op, j, j2, X, Y, elements). j2 - j)") auto

text \<open>
  The loop over \<open>i\<close>, lines 161-184; \<open>root_index\<close> advances with \<open>i\<close> and outlives the
  loop, so it is returned with the array.
\<close>

function inv_loop_i ::
  "u64 \<Rightarrow> u64 \<Rightarrow> u64 list \<Rightarrow> nat \<Rightarrow> nat \<Rightarrow> nat \<Rightarrow> nat \<Rightarrow> nat \<Rightarrow> u64 list
     \<Rightarrow> error + (nat \<times> u64 list)" where
  "inv_loop_i modu twice_mod inv_root_of_unity_powers m t i root_index j1 elements =
     (if i < m then
        (let j2 = j1 + t in
         case load inv_root_of_unity_powers root_index of Inl e \<Rightarrow> Inl e | Inr W_op \<Rightarrow>
         case inv_loop_j modu twice_mod W_op j1 j2 j1 (j1 + t) elements of
           Inl e \<Rightarrow> Inl e
         | Inr el \<Rightarrow>
             inv_loop_i modu twice_mod inv_root_of_unity_powers m t (i + 1) (root_index + 1)
               (j1 + 2 * t) el)
      else Inr (root_index, elements))"
  by pat_completeness auto
termination
  by (relation "measure (\<lambda>(modu, twice_mod, r, m, t, i, root_index, j1, elements). m - i)") auto

text \<open>The loop over \<open>m\<close>, lines 159-186: \<open>m\<close> halves down to 2 and \<open>t\<close> doubles.\<close>

function inv_loop_m ::
  "u64 \<Rightarrow> u64 \<Rightarrow> u64 list \<Rightarrow> nat \<Rightarrow> nat \<Rightarrow> nat \<Rightarrow> u64 list \<Rightarrow> error + (nat \<times> u64 list)" where
  "inv_loop_m modu twice_mod inv_root_of_unity_powers m t root_index elements =
     (if m > 1 then
        (case inv_loop_i modu twice_mod inv_root_of_unity_powers m t 0 root_index 0 elements of
           Inl e \<Rightarrow> Inl e
         | Inr (root_index', el) \<Rightarrow>
             inv_loop_m modu twice_mod inv_root_of_unity_powers (m div 2) (2 * t) root_index' el)
      else Inr (root_index, elements))"
  by pat_completeness auto
termination
  by (relation "measure (\<lambda>(modu, twice_mod, r, m, t, root_index, elements). m)") auto

text \<open>
  The last level, lines 201-212, fused with the multiplication by the inverse of the
  degree: \<open>X\<close> starts at 0 and \<open>Y\<close> at \<open>n >> 1\<close>.
\<close>

definition inv_final_butterfly ::
  "u64 \<Rightarrow> u64 \<Rightarrow> u64 \<Rightarrow> u64 \<Rightarrow> nat \<Rightarrow> nat \<Rightarrow> u64 list \<Rightarrow> error + u64 list" where
  "inv_final_butterfly modu twice_mod inv_n inv_n_w X Y elements =
     (case load elements X of Inl e \<Rightarrow> Inl e | Inr x \<Rightarrow>
      case load elements Y of Inl e \<Rightarrow> Inl e | Inr y \<Rightarrow>
      let tx0 = x + y;
          tx = tx0 - (twice_mod AND (- (if tx0 \<ge> twice_mod then 1 else 0)));
          ty = x + twice_mod - y
      in
      case MultiplyModLazy3 64 tx inv_n modu of Inl e \<Rightarrow> Inl e | Inr vx \<Rightarrow>
      case store elements X vx of Inl e \<Rightarrow> Inl e | Inr el1 \<Rightarrow>
      case MultiplyModLazy3 64 ty inv_n_w modu of Inl e \<Rightarrow> Inl e | Inr vy \<Rightarrow>
        store el1 Y vy)"

function inv_final_loop ::
  "u64 \<Rightarrow> u64 \<Rightarrow> u64 \<Rightarrow> u64 \<Rightarrow> nat \<Rightarrow> nat \<Rightarrow> nat \<Rightarrow> nat \<Rightarrow> u64 list \<Rightarrow> error + u64 list" where
  "inv_final_loop modu twice_mod inv_n inv_n_w j n X Y elements =
     (if j < n then
        (case inv_final_butterfly modu twice_mod inv_n inv_n_w X Y elements of
           Inl e \<Rightarrow> Inl e
         | Inr el \<Rightarrow> inv_final_loop modu twice_mod inv_n inv_n_w (j + 1) n (X + 1) (Y + 1) el)
      else Inr elements)"
  by pat_completeness auto
termination
  by (relation "measure (\<lambda>(modu, twice_mod, inv_n, inv_n_w, j, n, X, Y, elements). n - j)") auto

text \<open>\<^verbatim>\<open>NTT::InverseTransformToBitReverse64\<close>, ntt.cpp lines 146-225.\<close>

definition InverseTransformToBitReverse64 ::
  "u64 \<Rightarrow> u64 \<Rightarrow> u64 list \<Rightarrow> u64 list \<Rightarrow> error + u64 list" where
  "InverseTransformToBitReverse64 degree modu inv_root_of_unity_powers elements =
     (if \<not> CheckArguments degree modu then Inl InvalidArguments
      else
        let twice_mod = push_bit 1 modu;
            n = unat degree
        in
        case inv_loop_m modu twice_mod inv_root_of_unity_powers (n div 2) 1 1 elements of
          Inl e \<Rightarrow> Inl e
        | Inr (root_index, el) \<Rightarrow>
        case load inv_root_of_unity_powers root_index of Inl e \<Rightarrow> Inl e | Inr W_op \<Rightarrow>
        case InverseMod degree modu of Inl e \<Rightarrow> Inl e | Inr inv_n \<Rightarrow>
        let inv_n_w = MultiplyMod inv_n W_op modu in
        case inv_final_loop modu twice_mod inv_n inv_n_w (n div 2) n 0 (n div 2) el of
          Inl e \<Rightarrow> Inl e
        | Inr el2 \<Rightarrow> reduce_loop modu twice_mod n 0 el2)"

subsection \<open>Construction of the root tables\<close>

text \<open>
  Modelled from the spec: \<^verbatim>\<open>ReverseBits\<close> is only declared (number-theory.hpp line 76).
  Section 4.1: it "reverses the lowest width bits of x, zeroing all higher bits".
\<close>

fun ReverseBits :: "nat \<Rightarrow> nat \<Rightarrow> nat" where
  "ReverseBits x 0 = 0"
| "ReverseBits x (Suc w) = 2 ^ w * (x mod 2) + ReverseBits (x div 2) w"

text \<open>
  Modelled from the spec: the constructor of the class \<^verbatim>\<open>NTT\<close>, which fills the tables, is
  outside the sources at hand.  Section 4.5, steps 2 and 3: \<open>\<omega>_powers[i]\<close> is
  \<open>\<omega> ^ br (i, log2 N)\<close>, the Barrett table beside it holds \<open>floor ((\<omega>_powers[i] << 64) / q)\<close>,
  and the powers of \<open>\<omega>\<^sup>-\<^sup>1\<close> are stored "in the order consumed by the inverse butterfly": after
  the unused entry 0 come the levels \<open>m = N/2, N/4, \<dots>, 1\<close> of the inverse transform, each with
  its \<open>m\<close> powers, those of the exponents \<open>br (m + i, log2 N)\<close>.
\<close>

definition root_table :: "nat \<Rightarrow> nat \<Rightarrow> nat \<Rightarrow> u64 list" where
  "root_table q k w = map (\<lambda>i. word_of_nat (w ^ ReverseBits i k mod q)) [0..<2 ^ k]"

definition precon_table :: "nat \<Rightarrow> u64 list \<Rightarrow> u64 list" where
  "precon_table q roots = map (\<lambda>W. word_of_nat ((unat W * 2 ^ 64) div q)) roots"

definition inv_root_level :: "nat \<Rightarrow> nat \<Rightarrow> nat \<Rightarrow> nat \<Rightarrow> u64 list" where
  "inv_root_level q k w_inv a =
     map (\<lambda>b. word_of_nat (w_inv ^ ReverseBits (2 ^ a + b) k mod q)) [0..<2 ^ a]"

definition inv_root_table :: "nat \<Rightarrow> nat \<Rightarrow> nat \<Rightarrow> u64 list" where
  "inv_root_table q k w_inv = 1 # concat (map (inv_root_level q k w_inv) (rev [0..<k]))"

section \<open>Functions used in the proofs\<close>

text \<open>
  None of the following belongs to the program.  \<open>inner_gen\<close> and \<open>level_gen\<close> are the
  two inner loops of a transform with the butterfly left open; the other functions
  instantiate them with the values that the butterflies of ntt.cpp compute, and name the
  state \<open>fwd_prefix\<close> after the first levels.  Each loop of the program is proved equal to
  its counterpart here before anything is proved about it.  The predicates
  \<open>forward_tables_ok\<close> and \<open>inverse_tables_ok\<close> say what the transforms need of their
  tables; the tables of the construction above satisfy them (\<open>built_tables_ok\<close>).
\<close>

fun inner_gen :: "('a \<Rightarrow> 'a \<Rightarrow> 'a) \<Rightarrow> ('a \<Rightarrow> 'a \<Rightarrow> 'a) \<Rightarrow> nat \<Rightarrow> nat \<Rightarrow> nat \<Rightarrow> 'a list \<Rightarrow> 'a list" where
  "inner_gen f g t j 0 es = es"
| "inner_gen f g t j (Suc c) es =
     inner_gen f g t (j + 1) c (es[j := f (es ! j) (es ! (j + t)), j + t := g (es ! j) (es ! (j + t))])"

fun level_gen :: "(nat \<Rightarrow> 'a \<Rightarrow> 'a \<Rightarrow> 'a) \<Rightarrow> (nat \<Rightarrow> 'a \<Rightarrow> 'a \<Rightarrow> 'a) \<Rightarrow> nat \<Rightarrow> nat \<Rightarrow> nat \<Rightarrow> 'a list \<Rightarrow> 'a list" where
  "level_gen F G t i 0 es = es"
| "level_gen F G t i (Suc c) es =
     level_gen F G t (i + 1) c (inner_gen (F i) (G i) t (2 * t * i) t es)"

definition fwdX :: "u64 \<Rightarrow> u64 \<Rightarrow> u64 \<Rightarrow> u64 \<Rightarrow> u64 \<Rightarrow> u64 \<Rightarrow> u64" where
  "fwdX q tw W Wp x y =
     (x - (tw AND (- (if x \<ge> tw then 1 else 0)))) + (W * y - MultiplyUInt64Hi 64 y Wp * q)"

definition fwdY :: "u64 \<Rightarrow> u64 \<Rightarrow> u64 \<Rightarrow> u64 \<Rightarrow> u64 \<Rightarrow> u64 \<Rightarrow> u64" where
  "fwdY q tw W Wp x y =
     (x - (tw AND (- (if x \<ge> tw then 1 else 0)))) + tw - (W * y - MultiplyUInt64Hi 64 y Wp * q)"

definition fwd_level :: "u64 \<Rightarrow> u64 \<Rightarrow> u64 list \<Rightarrow> u64 list \<Rightarrow> nat \<Rightarrow> nat \<Rightarrow> u64 list \<Rightarrow> u64 list" where
  "fwd_level q tw roots precon m t es =
     level_gen (\<lambda>b. fwdX q tw (roots ! (m + b)) (precon ! (m + b)))
               (\<lambda>b. fwdY q tw (roots ! (m + b)) (precon ! (m + b))) t 0 m es"

primrec fwd_prefix :: "u64 \<Rightarrow> u64 \<Rightarrow> u64 list \<Rightarrow> u64 list \<Rightarrow> nat \<Rightarrow> nat \<Rightarrow> u64 list \<Rightarrow> u64 list" where
  "fwd_prefix q tw roots precon k 0 es = es"
| "fwd_prefix q tw roots precon k (Suc i) es =
     fwd_level q tw roots precon (2 ^ i) (2 ^ (k - Suc i)) (fwd_prefix q tw roots precon k i es)"

text \<open>
  Modelled from the spec: the constructor that fills the root tables is outside the sources
  at hand.  Sections 3 and 4.5: the forward table holds the powers of \<open>\<omega>\<close> reduced
  modulo \<open>q\<close>, in bit-reversed order, entry 0 unused, and
  \<open>precon[i] = floor ((roots[i] << 64) / q)\<close>; both tables have length \<open>N = 2 ^ k\<close>.  The
  predicate states this of the entries the transform reads; which powers they are plays no
  part in the properties proved here.
\<close>

definition forward_tables_ok :: "nat \<Rightarrow> u64 \<Rightarrow> u64 list \<Rightarrow> u64 list \<Rightarrow> bool" where
  "forward_tables_ok k q roots precon =
     (length roots = 2 ^ k \<and> length precon = 2 ^ k \<and>
      (\<forall>j\<in>{1..<2 ^ k}. roots ! j < q \<and> unat (precon ! j) = (unat (roots ! j) * 2 ^ 64) div unat q))"

definition in4q :: "u64 \<Rightarrow> u64 list \<Rightarrow> bool" where
  "in4q q es = (\<forall>x\<in>set es. unat x < 4 * unat q)"

definition refX :: "u64 \<Rightarrow> u64 \<Rightarrow> u64 \<Rightarrow> u64 \<Rightarrow> u64" where
  "refX q W x y = AddUIntMod x (MultiplyMod y W q) q"

definition refY :: "u64 \<Rightarrow> u64 \<Rightarrow> u64 \<Rightarrow> u64 \<Rightarrow> u64" where
  "refY q W x y = SubUIntMod x (MultiplyMod y W q) q"

definition ref_level :: "u64 \<Rightarrow> u64 list \<Rightarrow> nat \<Rightarrow> nat \<Rightarrow> u64 list \<Rightarrow> u64 list" where
  "ref_level q roots m t es =
     level_gen (\<lambda>b. refX q (roots ! (m + b))) (\<lambda>b. refY q (roots ! (m + b))) t 0 m es"

primrec ref_prefix :: "u64 \<Rightarrow> u64 list \<Rightarrow> nat \<Rightarrow> nat \<Rightarrow> u64 list \<Rightarrow> u64 list" where
  "ref_prefix q roots k 0 es = es"
| "ref_prefix q roots k (Suc i) es =
     ref_level q roots (2 ^ i) (2 ^ (k - Suc i)) (ref_prefix q roots k i es)"

definition barrett64 :: "u64 \<Rightarrow> u64 \<Rightarrow> u64" where
  "barrett64 q W = word_of_nat ((unat W * 2 ^ 64) div unat q)"

definition lazy64 :: "u64 \<Rightarrow> u64 \<Rightarrow> u64 \<Rightarrow> u64" where
  "lazy64 q W v = W * v - MultiplyUInt64Hi 64 v (barrett64 q W) * q"

definition invX :: "u64 \<Rightarrow> u64 \<Rightarrow> u64 \<Rightarrow> u64" where
  "invX tw x y = (x + y) - (tw AND (- (if x + y \<ge> tw then 1 else 0)))"

definition invY :: "u64 \<Rightarrow> u64 \<Rightarrow> u64 \<Rightarrow> u64 \<Rightarrow> u64 \<Rightarrow> u64" where
  "invY q tw W x y = lazy64 q W (x + tw - y)"

definition finX :: "u64 \<Rightarrow> u64 \<Rightarrow> u64 \<Rightarrow> u64 \<Rightarrow> u64 \<Rightarrow> u64" where
  "finX q tw inv_n x y = lazy64 q inv_n (invX tw x y)"

definition inv_level :: "u64 \<Rightarrow> u64 \<Rightarrow> u64 list \<Rightarrow> nat \<Rightarrow> nat \<Rightarrow> nat \<Rightarrow> u64 list \<Rightarrow> u64 list" where
  "inv_level q tw inv_roots m t idx zs =
     level_gen (\<lambda>b. invX tw) (\<lambda>b. invY q tw (inv_roots ! (idx + b))) t 0 m zs"

primrec inv_suffix :: "u64 \<Rightarrow> u64 \<Rightarrow> u64 list \<Rightarrow> nat \<Rightarrow> nat \<Rightarrow> u64 list \<Rightarrow> u64 list" where
  "inv_suffix q tw inv_roots k 0 zs = zs"
| "inv_suffix q tw inv_roots k (Suc a) zs =
     inv_suffix q tw inv_roots k a
       (inv_level q tw inv_roots (2 ^ Suc a) (2 ^ (k - Suc (Suc a))) (2 ^ k - 2 ^ Suc (Suc a) + 1) zs)"

definition inv_final :: "u64 \<Rightarrow> u64 \<Rightarrow> u64 \<Rightarrow> u64 \<Rightarrow> nat \<Rightarrow> u64 list \<Rightarrow> u64 list" where
  "inv_final q tw inv_n inv_n_w t zs =
     level_gen (\<lambda>b. finX q tw inv_n) (\<lambda>b. invY q tw inv_n_w) t 0 1 zs"

text \<open>
  Modelled from the spec: the constructor that fills the inverse table is outside the
  sources at hand.  Section 4.5: the table holds the powers of \<open>\<omega>\<^sup>-\<^sup>1\<close> "in the order
  consumed by the inverse butterfly".  The inverse transform reads it from index 1 on, the
  level with \<open>m = 2 ^ a\<close> blocks at the indices \<open>2 ^ k - 2 ^ (a + 1) + 1 + b\<close>, and block \<open>b\<close>
  of that level undoes the forward butterfly with the root at index \<open>2 ^ a + b\<close>.  The
  predicate states that each entry is reduced and is the inverse modulo \<open>q\<close> of that root.
\<close>

definition inverse_tables_ok :: "nat \<Rightarrow> u64 \<Rightarrow> u64 list \<Rightarrow> u64 list \<Rightarrow> bool" where
  "inverse_tables_ok k q roots inv_roots =
     (length inv_roots = 2 ^ k \<and>
      (\<forall>a\<in>{0..<k}. \<forall>b\<in>{0..<2 ^ a}.
          inv_roots ! (2 ^ k - 2 ^ Suc a + 1 + b) < q \<and>
          (unat (inv_roots ! (2 ^ k - 2 ^ Suc a + 1 + b)) * unat (roots ! (2 ^ a + b)))
             mod unat q = 1))"

definition scaled :: "u64 \<Rightarrow> nat \<Rightarrow> u64 list \<Rightarrow> u64 list \<Rightarrow> bool" where
  "scaled q c zs es =
     (length zs = length es \<and>
      (\<forall>p<length es. unat (zs ! p) < 2 * unat q
          \<and> unat (zs ! p) mod unat q = (c * unat (es ! p)) mod unat q))"

section \<open>Arithmetic behind the Barrett estimates\<close>

lemma barrett_nat_lower:
  fixes x y q P :: nat
  assumes "0 < q" "0 < P"
  shows "((x * ((y * P) div q)) div P) * q \<le> x * y"
proof -
  define p where "p = (y * P) div q"
  define Qn where "Qn = (x * p) div P"
  have "p * q \<le> y * P" by (simp add: p_def)
  have "Qn * P \<le> x * p" by (simp add: Qn_def)
  then have "Qn * P * q \<le> x * p * q" by simp
  also have "\<dots> \<le> x * (y * P)" using \<open>p * q \<le> y * P\<close> by (simp add: mult.assoc)
  finally have "(Qn * q) * P \<le> (x * y) * P" by (simp add: ac_simps)
  then show ?thesis using \<open>0 < P\<close> by (simp add: p_def Qn_def)
qed

lemma barrett_nat_upper:
  fixes x y q P :: nat
  assumes "0 < q" "0 < P" "x \<le> P"
  shows "x * y < ((x * ((y * P) div q)) div P) * q + 2 * q"
proof -
  define p where "p = (y * P) div q"
  define r where "r = (y * P) mod q"
  define Qn where "Qn = (x * p) div P"
  define s where "s = (x * p) mod P"
  have yP: "y * P = p * q + r" by (simp add: p_def r_def)
  have xp: "x * p = Qn * P + s" by (simp add: Qn_def s_def)
  have r: "r < q" using assms by (simp add: r_def)
  have s: "s < P" using assms by (simp add: s_def)
  have "(x * y) * P = x * (y * P)" by (simp add: ac_simps)
  also have "\<dots> = (x * p) * q + x * r" unfolding yP by (simp add: algebra_simps)
  also have "\<dots> = Qn * q * P + s * q + x * r" unfolding xp by (simp add: algebra_simps)
  finally have eq: "(x * y) * P = Qn * q * P + s * q + x * r" .
  have "s * q < P * q" using s assms by simp
  moreover have "x * r \<le> P * q" using r assms by (simp add: mult_le_mono)
  ultimately have "s * q + x * r < P * q + P * q" by (rule add_less_le_mono)
  then have "(x * y) * P < Qn * q * P + 2 * q * P" unfolding eq by (simp add: algebra_simps)
  then have "(x * y) * P < (Qn * q + 2 * q) * P" by (simp add: algebra_simps)
  then have "x * y < Qn * q + 2 * q" by simp
  then show ?thesis by (simp add: p_def Qn_def)
qed

lemma sub_mult_mod_nat:
  fixes a k q :: nat
  assumes "k * q \<le> a"
  shows "(a - k * q) mod q = a mod q"
proof -
  have "a = (a - k * q) + k * q" using assms by simp
  then have "a mod q = ((a - k * q) + k * q) mod q" by simp
  then show ?thesis by simp
qed

lemma unat_lt64: "unat (w :: u64) < 18446744073709551616"
  using unsigned_less [of w, where ?'a = nat] by simp

text \<open>The wrapped 64-bit difference of two products is the exact difference when that fits.\<close>
lemma word_lazy_diff:
  fixes x y q :: u64 and Qn :: nat
  assumes le: "Qn * unat q \<le> unat x * unat y"
    and fit: "unat x * unat y - Qn * unat q < 2 ^ 64"
  shows "unat (y * x - word_of_nat Qn * q) = unat x * unat y - Qn * unat q"
proof -
  have "y * x = (word_of_nat (unat x * unat y) :: u64)" by simp
  moreover have "word_of_nat Qn * q = (word_of_nat (Qn * unat q) :: u64)" by simp
  ultimately have "y * x - word_of_nat Qn * q
      = (word_of_nat (unat x * unat y) :: u64) - word_of_nat (Qn * unat q)" by simp
  also have "\<dots> = word_of_nat (unat x * unat y - Qn * unat q)"
    using le by (simp add: of_nat_diff)
  finally have "unat (y * x - word_of_nat Qn * q)
      = unat (word_of_nat (unat x * unat y - Qn * unat q) :: u64)" by simp
  also have "\<dots> = unat x * unat y - Qn * unat q"
    using fit by (simp add: unat_of_nat)
  finally show ?thesis .
qed

text \<open>One conditional subtraction.\<close>
lemma csub_unat:
  fixes x m :: u64
  shows "unat (if m \<le> x then x - m else x) = (if unat m \<le> unat x then unat x - unat m else unat x)"
  by (simp add: word_le_nat_alt unat_sub)

lemma csub_mod_nat:
  fixes a q :: nat
  assumes "a < 2 * q"
  shows "(if q \<le> a then a - q else a) = a mod q"
  using assms by (simp add: le_mod_geq)

lemma MultiplyUInt64Hi_unat:
  assumes "(unat a * unat b) div 2 ^ S < 2 ^ 64"
  shows "unat (MultiplyUInt64Hi S a b) = (unat a * unat b) div 2 ^ S"
  using assms by (simp add: MultiplyUInt64Hi_def unat_of_nat)

lemma lazy_core:
  fixes x y yp q :: u64
  assumes q: "0 < unat q" and q2: "2 * unat q \<le> 2 ^ 64"
    and x: "unat x \<le> 2 ^ S"
    and yp: "unat yp = (unat y * 2 ^ S) div unat q"
  shows "unat (y * x - MultiplyUInt64Hi S x yp * q) < 2 * unat q"
    and "unat (y * x - MultiplyUInt64Hi S x yp * q) mod unat q = (unat x * unat y) mod unat q"
    and "unat (MultiplyUInt64Hi S x yp) * unat q \<le> unat x * unat y"
    and "unat (y * x - MultiplyUInt64Hi S x yp * q)
           = unat x * unat y - unat (MultiplyUInt64Hi S x yp) * unat q"
proof -
  define Qn where "Qn = (unat x * unat yp) div 2 ^ S"
  have Qn_eq: "Qn = (unat x * ((unat y * 2 ^ S) div unat q)) div 2 ^ S"
    by (simp add: Qn_def yp)
  have lo: "Qn * unat q \<le> unat x * unat y"
    unfolding Qn_eq using barrett_nat_lower [of "unat q" "2 ^ S" "unat x" "unat y"] q by simp
  have up: "unat x * unat y < Qn * unat q + 2 * unat q"
    unfolding Qn_eq using barrett_nat_upper [of "unat q" "2 ^ S" "unat x" "unat y"] q x by simp
  have T: "unat x * unat y - Qn * unat q < 2 * unat q" using lo up by simp
  have hi: "MultiplyUInt64Hi S x yp = word_of_nat Qn"
    by (simp add: MultiplyUInt64Hi_def Qn_def)
  have "unat x * unat yp \<le> 2 ^ S * unat yp" using x by simp
  then have "Qn \<le> unat yp" unfolding Qn_def
    by (metis div_le_mono nonzero_mult_div_cancel_left power_not_zero zero_neq_numeral)
  then have "Qn < 2 ^ 64" using unat_lt64 [of yp] by simp
  then have uhi: "unat (MultiplyUInt64Hi S x yp) = Qn"
    unfolding hi by (simp add: unat_of_nat)
  have val: "unat (y * x - MultiplyUInt64Hi S x yp * q) = unat x * unat y - Qn * unat q"
    unfolding hi using lo T q2 by (intro word_lazy_diff) simp_all
  show "unat (y * x - MultiplyUInt64Hi S x yp * q) < 2 * unat q"
    using val T by simp
  show "unat (y * x - MultiplyUInt64Hi S x yp * q) mod unat q = (unat x * unat y) mod unat q"
    unfolding val using lo by (rule sub_mult_mod_nat)
  show "unat (MultiplyUInt64Hi S x yp) * unat q \<le> unat x * unat y"
    unfolding uhi by (rule lo)
  show "unat (y * x - MultiplyUInt64Hi S x yp * q)
           = unat x * unat y - unat (MultiplyUInt64Hi S x yp) * unat q"
    unfolding uhi by (rule val)
qed

section \<open>Conditional reductions\<close>

text \<open>
  Claim C7. For every factor \<open>K\<close> in \<open>{1, 2, 4, 8}\<close>, every modulus \<open>q > 0\<close> and every
  \<open>x < K * q\<close>, with the pointers \<^verbatim>\<open>twice_modulus\<close> and \<^verbatim>\<open>four_times_modulus\<close>
  supplied and holding \<open>2 * q\<close> and \<open>4 * q\<close> where the factor needs them,
  \<^verbatim>\<open>ReduceMod<K>\<close> returns exactly \<open>x mod q\<close>.
\<close>

theorem ReduceMod_correct:
  assumes K: "K = 1 \<or> K = 2 \<or> K = 4 \<or> K = 8"
    and q: "0 < q"
    and x: "unat x < K * unat q"
    and tw: "K = 4 \<or> K = 8 \<Longrightarrow> twice_modulus = Some tm \<and> unat tm = 2 * unat q"
    and fo: "K = 8 \<Longrightarrow> four_times_modulus = Some fm \<and> unat fm = 4 * unat q"
  shows "ReduceMod K x q twice_modulus four_times_modulus = Inr (x mod q)"
proof -
  consider (one) "K = 1" | (two) "K = 2" | (four) "K = 4" | (eight) "K = 8" using K by blast
  then show ?thesis
  proof cases
    case one
    then have "unat x < unat q" using x by simp
    then have "x mod q = x" by (simp add: word_unat_eq_iff unat_mod)
    then show ?thesis using one by (simp add: ReduceMod_def)
  next
    case two
    have "unat (if q \<le> x then x - q else x) = unat x mod unat q"
      unfolding csub_unat using x two by (simp add: csub_mod_nat)
    then have "(if q \<le> x then x - q else x) = x mod q"
      by (simp only: word_unat_eq_iff unat_mod)
    then show ?thesis using two by (simp add: ReduceMod_def)
  next
    case four
    then have tm: "twice_modulus = Some tm" "unat tm = 2 * unat q" using tw by simp_all
    define x1 where "x1 = (if tm \<le> x then x - tm else x)"
    have u1: "unat x1 = (if 2 * unat q \<le> unat x then unat x - 2 * unat q else unat x)"
      unfolding x1_def csub_unat tm by simp
    have b1: "unat x1 < 2 * unat q" using u1 x four by (simp split: if_splits)
    have c1: "unat x1 mod unat q = unat x mod unat q"
      using u1 sub_mult_mod_nat [of 2 "unat q" "unat x"] by (simp split: if_splits)
    have "unat (if q \<le> x1 then x1 - q else x1) = unat x mod unat q"
      unfolding csub_unat using b1 c1 by (simp add: csub_mod_nat)
    then have "(if q \<le> x1 then x1 - q else x1) = x mod q"
      by (simp only: word_unat_eq_iff unat_mod)
    moreover have "ReduceMod K x q twice_modulus four_times_modulus
        = Inr (if q \<le> x1 then x1 - q else x1)"
      using four tm(1) by (simp add: ReduceMod_def x1_def Let_def)
    ultimately show ?thesis by simp
  next
    case eight
    then have tm: "twice_modulus = Some tm" "unat tm = 2 * unat q" using tw by simp_all
    from eight have fm: "four_times_modulus = Some fm" "unat fm = 4 * unat q" using fo by simp_all
    define x1 where "x1 = (if fm \<le> x then x - fm else x)"
    define x2 where "x2 = (if tm \<le> x1 then x1 - tm else x1)"
    have u1: "unat x1 = (if 4 * unat q \<le> unat x then unat x - 4 * unat q else unat x)"
      unfolding x1_def csub_unat fm by simp
    have b1: "unat x1 < 4 * unat q" using u1 x eight by (simp split: if_splits)
    have c1: "unat x1 mod unat q = unat x mod unat q"
      using u1 sub_mult_mod_nat [of 4 "unat q" "unat x"] by (simp split: if_splits)
    have u2: "unat x2 = (if 2 * unat q \<le> unat x1 then unat x1 - 2 * unat q else unat x1)"
      unfolding x2_def csub_unat tm by simp
    have b2: "unat x2 < 2 * unat q" using u2 b1 by (simp split: if_splits)
    have c2: "unat x2 mod unat q = unat x mod unat q"
      using u2 c1 sub_mult_mod_nat [of 2 "unat q" "unat x1"] by (simp split: if_splits)
    have "unat (if q \<le> x2 then x2 - q else x2) = unat x mod unat q"
      unfolding csub_unat using b2 c2 by (simp add: csub_mod_nat)
    then have "(if q \<le> x2 then x2 - q else x2) = x mod q"
      by (simp only: word_unat_eq_iff unat_mod)
    moreover have "ReduceMod K x q twice_modulus four_times_modulus
        = Inr (if q \<le> x2 then x2 - q else x2)"
      using eight tm(1) fm(1) by (simp add: ReduceMod_def x1_def x2_def Let_def)
    ultimately show ?thesis by simp
  qed
qed

theorem ReduceMod_correct_witness:
  "ReduceMod 8 100 13 (Some 26) (Some 52) = Inr (100 mod 13)"
  using ReduceMod_correct [of 8 13 100 "Some 26" 26 "Some 52" 52] by simp

text \<open>
  Claim C6. For every 64-bit input \<open>x\<close> and every modulus \<open>0 < q < 2 ^ 62\<close>, given
  \<open>q_barr = floor (2 ^ 64 / q)\<close>, \<^verbatim>\<open>BarrettReduce64\<close> returns exactly \<open>x mod q\<close>: the
  estimate \<open>x - hi64 (x * q_barr) * q\<close> does not wrap and lies in \<open>[0, 2 * q)\<close>, so the
  single conditional subtraction finishes the reduction.
\<close>

theorem BarrettReduce64_correct:
  assumes q: "0 < unat q" and q62: "unat q < 2 ^ 62"
    and qb: "unat q_barr = 2 ^ 64 div unat q"
  shows "BarrettReduce64 x q q_barr = Inr (x mod q)
     \<and> unat (MultiplyUInt64Hi 64 x q_barr) * unat q \<le> unat x
     \<and> unat x - unat (MultiplyUInt64Hi 64 x q_barr) * unat q < 2 * unat q
     \<and> unat (x - MultiplyUInt64Hi 64 x q_barr * q)
          = unat x - unat (MultiplyUInt64Hi 64 x q_barr) * unat q"
proof -
  define e where "e = x - MultiplyUInt64Hi 64 x q_barr * q"
  have q2: "2 * unat q \<le> 2 ^ 64" using q62 by simp
  have xb: "unat x \<le> 2 ^ 64" using unat_lt64 [of x] by simp
  have yp: "unat q_barr = (unat (1::u64) * 2 ^ 64) div unat q" using qb by simp
  have b: "unat e < 2 * unat q"
    using lazy_core(1) [OF q q2 xb yp] by (simp add: e_def)
  have c: "unat e mod unat q = unat x mod unat q"
    using lazy_core(2) [OF q q2 xb yp] by (simp add: e_def)
  have lo: "unat (MultiplyUInt64Hi 64 x q_barr) * unat q \<le> unat x"
    using lazy_core(3) [OF q q2 xb yp] by simp
  have val: "unat e = unat x - unat (MultiplyUInt64Hi 64 x q_barr) * unat q"
    using lazy_core(4) [OF q q2 xb yp] by (simp add: e_def)
  have "unat (if q \<le> e then e - q else e) = unat x mod unat q"
    unfolding csub_unat using b c by (simp add: csub_mod_nat)
  then have "(if q \<le> e then e - q else e) = x mod q"
    by (simp only: word_unat_eq_iff unat_mod)
  moreover have "q \<noteq> 0" using q by auto
  then have "BarrettReduce64 x q q_barr = Inr (if q \<le> e then e - q else e)"
    by (simp add: BarrettReduce64_def e_def Let_def)
  ultimately have "BarrettReduce64 x q q_barr = Inr (x mod q)"
    by simp
  then show ?thesis using lo b val by (simp add: e_def)
qed

theorem BarrettReduce64_correct_witness:
  "BarrettReduce64 100 13 1418980313362273201 = Inr (100 mod 13)
     \<and> unat (MultiplyUInt64Hi 64 100 1418980313362273201) * unat (13::u64) \<le> unat (100::u64)
     \<and> unat (100::u64) - unat (MultiplyUInt64Hi 64 100 1418980313362273201) * unat (13::u64)
           < 2 * unat (13::u64)
     \<and> unat (100 - MultiplyUInt64Hi 64 100 1418980313362273201 * 13 :: u64)
          = unat (100::u64) - unat (MultiplyUInt64Hi 64 100 1418980313362273201) * unat (13::u64)"
  using BarrettReduce64_correct [of 13 1418980313362273201 100] by simp

section \<open>Lazy multiplication and the Barrett factor\<close>

lemma MaximumValue_64: "MaximumValue 64 = Inr (- 1)"
  by (simp add: MaximumValue_def)

lemma MaximumValue_52: "MaximumValue 52 = Inr 4503599627370495"
  by (simp add: MaximumValue_def)

text \<open>
  Claim C4. (as amended) For \<open>S\<close> in \<open>{52, 64}\<close> and every \<open>x\<close>, \<open>y\<close>, \<open>q\<close> with
  \<open>y < q\<close>, \<open>q \<le> MaximumValue S\<close>, \<open>x \<le> MaximumValue S\<close> and
  \<open>y_precon = floor (y * 2 ^ S / q)\<close>, and with \<open>q \<le> 2 ^ 63\<close> when \<open>S = 64\<close>:
  \<^verbatim>\<open>MultiplyModLazy<S>\<close> returns a value congruent to \<open>x * y\<close> modulo \<open>q\<close> in
  \<open>[0, 2 * q)\<close>.
\<close>

theorem MultiplyModLazy_correct:
  assumes S: "S = 52 \<or> S = 64"
    and y: "y < q"
    and mx: "MaximumValue S = Inr mx"
    and qmx: "q \<le> mx"
    and xmx: "x \<le> mx"
    and yp: "unat yp = (unat y * 2 ^ S) div unat q"
    and q63: "S = 64 \<Longrightarrow> unat q \<le> 2 ^ 63"
  shows "\<exists>r. MultiplyModLazy S x y yp q = Inr r
           \<and> unat r mod unat q = (unat x * unat y) mod unat q
           \<and> unat r < 2 * unat q"
proof -
  have q0: "0 < unat q" using y by (simp add: word_less_nat_alt)
  have q2: "2 * unat q \<le> 2 ^ 64"
  proof (cases "S = 64")
    case True
    then show ?thesis using q63 by simp
  next
    case False
    then have "mx = 4503599627370495" using S mx by (simp add: MaximumValue_52)
    then have "unat q \<le> 4503599627370495" using qmx by (simp add: word_le_nat_alt)
    then show ?thesis by simp
  qed
  have xb: "unat x \<le> 2 ^ S"
  proof (cases "S = 64")
    case True
    then show ?thesis using unat_lt64 [of x] by simp
  next
    case False
    then have "mx = 4503599627370495" "S = 52" using S mx by (simp_all add: MaximumValue_52)
    then show ?thesis using xmx by (simp add: word_le_nat_alt)
  qed
  have "MultiplyModLazy S x y yp q = Inr (y * x - MultiplyUInt64Hi S x yp * q)"
    using y mx qmx xmx by (simp add: MultiplyModLazy_def Let_def)
  then show ?thesis
    using lazy_core(1) [OF q0 q2 xb yp] lazy_core(2) [OF q0 q2 xb yp] by simp
qed

theorem MultiplyModLazy_correct_witness:
  "\<exists>r. MultiplyModLazy 64 100 7 9932862193535912408 13 = Inr r
           \<and> unat r mod unat (13::u64) = (unat (100::u64) * unat (7::u64)) mod unat (13::u64)
           \<and> unat r < 2 * unat (13::u64)"
  using MultiplyModLazy_correct [of 64 7 13 "- 1" 100 9932862193535912408]
  by (simp add: MaximumValue_64)

text \<open>
  Claim C4. as stated, fails for \<open>S = 64\<close> once \<open>2 * q\<close> no longer fits 64 bits: with
  \<open>q = 2 ^ 64 - 1\<close> and \<open>x = y = y_precon = 2 ^ 64 - 2\<close> all preconditions hold, the exact
  value \<open>x * y - Q * q\<close> is \<open>2 ^ 64\<close>, and the function returns 0 although
  \<open>x * y mod q = 1\<close>.
\<close>

theorem MultiplyModLazy_counterexample:
  "(18446744073709551614 :: u64) < 18446744073709551615
   \<and> MaximumValue 64 = Inr 18446744073709551615
   \<and> unat (18446744073709551614 :: u64)
        = (unat (18446744073709551614 :: u64) * 2 ^ 64) div unat (18446744073709551615 :: u64)
   \<and> MultiplyModLazy 64 18446744073709551614 18446744073709551614
          18446744073709551614 18446744073709551615 = Inr 0
   \<and> unat (0 :: u64) mod unat (18446744073709551615 :: u64)
        \<noteq> (unat (18446744073709551614 :: u64) * unat (18446744073709551614 :: u64))
             mod unat (18446744073709551615 :: u64)"
  by (simp add: MultiplyModLazy_def MaximumValue_def MultiplyUInt64Hi_def)

lemma split_nat:
  fixes w A B :: nat
  shows "(w div A) * (A * B) + (w * B) mod (A * B) = w * B"
proof -
  have m: "(w * B) mod (A * B) = (w mod A) * B"
    by (simp add: mult_mod_left)
  have "w * B = ((w div A) * A + w mod A) * B" by simp
  also have "\<dots> = (w div A) * (A * B) + (w mod A) * B"
    by (simp only: distrib_right mult.assoc)
  finally show ?thesis unfolding m by simp
qed

lemma factor_numerator:
  fixes operand :: u64
  assumes "S = 32 \<or> S = 52 \<or> S = 64"
  shows "unat (drop_bit (64 - S) operand) * 2 ^ 64
           + unat (if S = 64 then 0 else push_bit S operand :: u64)
         = unat operand * 2 ^ S"
proof (cases "S = 64")
  case True
  then show ?thesis by simp
next
  case False
  then have S: "S \<le> 64" using assms by auto
  have e: "(2::nat) ^ 64 = 2 ^ (64 - S) * 2 ^ S"
    using S by (simp flip: power_add)
  have "push_bit S operand = (word_of_nat (unat operand * 2 ^ S) :: u64)"
    by (simp add: push_bit_eq_mult)
  then have "unat (push_bit S operand) = (unat operand * 2 ^ S) mod 2 ^ 64"
    by (simp only: unat_of_nat) simp
  then have pb: "unat (push_bit S operand) = (unat operand * 2 ^ S) mod (2 ^ (64 - S) * 2 ^ S)"
    by (simp only: e)
  have db: "unat (drop_bit (64 - S) operand) = unat operand div 2 ^ (64 - S)"
    unfolding unat_drop_bit_eq by (simp add: drop_bit_eq_div)
  have "unat (drop_bit (64 - S) operand) * 2 ^ 64 + unat (push_bit S operand)
      = (unat operand div 2 ^ (64 - S)) * (2 ^ (64 - S) * 2 ^ S)
          + (unat operand * 2 ^ S) mod (2 ^ (64 - S) * 2 ^ S)"
    by (simp only: pb db e)
  also have "\<dots> = unat operand * 2 ^ S" by (rule split_nat)
  finally show ?thesis using False by simp
qed

text \<open>
  Claim C8. (as amended) For every shift \<open>S\<close> in \<open>{32, 52, 64}\<close>, every modulus \<open>q > 0\<close> and
  every operand with \<open>operand \<le> q\<close>, and \<open>operand < q\<close> when \<open>S = 64\<close>: the constructor of
  \<^verbatim>\<open>MultiplyFactor\<close> stores exactly \<open>floor (operand * 2 ^ S / q)\<close>, and
  \<^verbatim>\<open>Operand()\<close> returns the operand unchanged.
\<close>

theorem MultiplyFactor_exact:
  assumes S: "S = 32 \<or> S = 52 \<or> S = 64"
    and q: "0 < q"
    and op: "operand \<le> q"
    and op64: "S = 64 \<Longrightarrow> operand < q"
  shows "\<exists>mf. MultiplyFactor_new operand S q = Inr mf
           \<and> unat (BarrettFactor mf) = (unat operand * 2 ^ S) div unat q
           \<and> Operand mf = operand"
proof -
  have q0: "0 < unat q" using q by (simp add: word_less_nat_alt)
  have fit: "(unat operand * 2 ^ S) div unat q < 2 ^ 64"
  proof (cases "S = 64")
    case True
    then have "unat operand < unat q" using op64 by (simp add: word_less_nat_alt)
    then have "unat operand * 2 ^ 64 < unat q * 2 ^ 64" by simp
    then have "(unat operand * 2 ^ 64) div unat q < 2 ^ 64"
      using q0 by (simp add: less_mult_imp_div_less mult.commute)
    then show ?thesis using True by simp
  next
    case False
    have "unat operand \<le> unat q" using op by (simp add: word_le_nat_alt)
    then have "unat operand * 2 ^ S \<le> 2 ^ S * unat q" by simp
    then have "(unat operand * 2 ^ S) div unat q \<le> 2 ^ S"
      using q0 by (metis div_le_mono div_mult_self_is_m)
    also have "(2::nat) ^ S < 2 ^ 64" using False S by auto
    finally show ?thesis .
  qed
  have "q \<noteq> 0" using q by auto
  then have "MultiplyFactor_new operand S q
      = Inr \<lparr>m_operand = operand,
             m_barrett_factor = word_of_nat ((unat operand * 2 ^ S) div unat q)\<rparr>"
    using S op factor_numerator [OF S, of operand]
    by (simp add: MultiplyFactor_new_def DivideUInt128UInt64Lo_def Let_def)
  then show ?thesis using fit
    by (simp add: BarrettFactor_def Operand_def unat_of_nat)
qed

theorem MultiplyFactor_exact_witness:
  "\<exists>mf. MultiplyFactor_new 7 52 13 = Inr mf
           \<and> unat (BarrettFactor mf) = (unat (7::u64) * 2 ^ 52) div unat (13::u64)
           \<and> Operand mf = 7"
  using MultiplyFactor_exact [of 52 13 7] by simp

text \<open>
  Claim C8. as stated, fails at \<open>operand = q\<close> with \<open>S = 64\<close>: the quotient is \<open>2 ^ 64\<close>, which
  no 64-bit field holds.
\<close>

theorem MultiplyFactor_counterexample:
  "(5::u64) \<le> 5
   \<and> MultiplyFactor_new 5 64 5 = Inr \<lparr>m_operand = 5, m_barrett_factor = 0\<rparr>
   \<and> unat (BarrettFactor \<lparr>m_operand = 5, m_barrett_factor = 0\<rparr>)
        \<noteq> (unat (5::u64) * 2 ^ 64) div unat (5::u64)"
  by (simp add: MultiplyFactor_new_def DivideUInt128UInt64Lo_def BarrettFactor_def)

section \<open>The element-wise kernel\<close>

lemma MultiplyFactor_new_64:
  assumes q: "0 < unat q" and op: "unat operand < unat q"
  shows "\<exists>bf. MultiplyFactor_new operand 64 q = Inr \<lparr>m_operand = operand, m_barrett_factor = bf\<rparr>
           \<and> unat bf = (unat operand * 2 ^ 64) div unat q"
proof -
  have "unat operand * 2 ^ 64 < unat q * 2 ^ 64" using op by simp
  then have fit: "(unat operand * 2 ^ 64) div unat q < 2 ^ 64"
    using q by (simp add: less_mult_imp_div_less mult.commute)
  have "q \<noteq> 0" using q by auto
  moreover have "operand \<le> q" using op by (simp add: word_le_nat_alt)
  ultimately have "MultiplyFactor_new operand 64 q
      = Inr \<lparr>m_operand = operand,
             m_barrett_factor = word_of_nat ((unat operand * 2 ^ 64) div unat q)\<rparr>"
    by (simp add: MultiplyFactor_new_def DivideUInt128UInt64Lo_def Let_def)
  moreover have "unat (word_of_nat ((unat operand * 2 ^ 64) div unat q) :: u64)
      = (unat operand * 2 ^ 64) div unat q"
    using fit by (simp add: unat_of_nat)
  ultimately show ?thesis by blast
qed

lemma MultiplyMod4_correct:
  assumes q: "0 < unat q" and q63: "unat q \<le> 2 ^ 63"
    and yp: "unat yp = (unat y * 2 ^ 64) div unat q"
  shows "unat (MultiplyMod4 x y yp q) = (unat x * unat y) mod unat q"
proof -
  define r where "r = y * x - MultiplyUInt64Hi 64 x yp * q"
  have q2: "2 * unat q \<le> 2 ^ 64" using q63 by simp
  have xb: "unat x \<le> 2 ^ 64" using unat_lt64 [of x] by simp
  have b: "unat r < 2 * unat q" unfolding r_def by (rule lazy_core(1) [OF q q2 xb yp])
  have c: "unat r mod unat q = (unat x * unat y) mod unat q"
    unfolding r_def by (rule lazy_core(2) [OF q q2 xb yp])
  have "MultiplyMod4 x y yp q = (if q \<le> r then r - q else r)"
    by (simp add: MultiplyMod4_def r_def Let_def mult.commute)
  then have "unat (MultiplyMod4 x y yp q) = unat (if q \<le> r then r - q else r)" by simp
  also have "\<dots> = unat r mod unat q"
    unfolding csub_unat using b by (simp add: csub_mod_nat)
  finally show ?thesis using c by simp
qed

lemma fma_loop_null_at:
  assumes "out \<le> arg1 \<or> arg1 + k \<le> out"
  shows "fma_loop_null k arg1 arg2 out bf q mem a
     = (if out \<le> a \<and> a < out + k then MultiplyMod4 (mem (arg1 + (a - out))) arg2 bf q
        else mem a)"
  using assms
proof (induction k arbitrary: arg1 out mem)
  case 0
  then show ?case by auto
next
  case (Suc k)
  let ?mem1 = "mem(out := MultiplyMod4 (mem arg1) arg2 bf q)"
  have pre: "out + 1 \<le> arg1 + 1 \<or> arg1 + 1 + k \<le> out + 1" using Suc.prems by auto
  have step: "fma_loop_null (Suc k) arg1 arg2 out bf q mem a
      = fma_loop_null k (arg1 + 1) arg2 (out + 1) bf q ?mem1 a" by simp
  show ?case
  proof (cases "out + 1 \<le> a \<and> a < out + 1 + k")
    case True
    then have "arg1 + 1 + (a - (out + 1)) = arg1 + (a - out)" by arith
    moreover have "arg1 + (a - out) \<noteq> out" using True Suc.prems by auto
    ultimately show ?thesis unfolding step Suc.IH [OF pre] using True by simp
  next
    case False
    then show ?thesis unfolding step Suc.IH [OF pre] by auto
  qed
qed

text \<open>
  Claim C9 (as amended).  For every length \<open>n\<close>, modulus \<open>q\<close> with \<open>0 < q \<le> 2 ^ 63\<close>,
  scalar \<open>arg2 < q\<close> and array \<open>arg1\<close> with all \<open>arg1[i] < q\<close>, where \<^verbatim>\<open>out\<close> is
  \<^verbatim>\<open>arg1\<close> itself or a buffer that does not begin inside \<^verbatim>\<open>arg1\<close> behind its first
  element: with \<^verbatim>\<open>arg3\<close> null, \<^verbatim>\<open>EltwiseFMAModNative\<close> stores
  \<open>out[i] = (arg1[i] * arg2) mod q\<close> for every \<open>i < n\<close>.
\<close>

theorem EltwiseFMAModNative_null_correct:
  assumes q0: "modulus \<noteq> 0"
    and q63: "unat modulus \<le> 2 ^ 63"
    and a2: "arg2 < modulus"
    and a1: "\<forall>i<n. mem (arg1 + i) < modulus"
    and lay: "out \<le> arg1 \<or> arg1 + n \<le> out"
  shows "\<exists>mem'. EltwiseFMAModNative arg1 arg2 None out n modulus mem = Inr mem'
           \<and> (\<forall>i<n. unat (mem' (out + i))
                        = (unat (mem (arg1 + i)) * unat arg2) mod unat modulus)"
proof -
  have q: "0 < unat modulus" using q0 by (simp add: unat_gt_0)
  have "unat arg2 < unat modulus" using a2 by (simp add: word_less_nat_alt)
  from MultiplyFactor_new_64 [OF q this] obtain bf
    where mf: "MultiplyFactor_new arg2 64 modulus = Inr \<lparr>m_operand = arg2, m_barrett_factor = bf\<rparr>"
      and bf: "unat bf = (unat arg2 * 2 ^ 64) div unat modulus" by blast
  let ?mem' = "fma_loop_null n arg1 arg2 out bf modulus mem"
  have run: "EltwiseFMAModNative arg1 arg2 None out n modulus mem = Inr ?mem'"
    by (simp add: EltwiseFMAModNative_def mf BarrettFactor_def)
  have "unat (?mem' (out + i)) = (unat (mem (arg1 + i)) * unat arg2) mod unat modulus"
    if "i < n" for i
    using that by (simp add: fma_loop_null_at [OF lay] MultiplyMod4_correct [OF q q63 bf])
  then show ?thesis using run by blast
qed

theorem EltwiseFMAModNative_null_correct_witness:
  "\<exists>mem'. EltwiseFMAModNative 0 5 None 8 4 97 (\<lambda>a. if a = 0 then 1 else if a = 1 then 2 else if a = 2 then 3 else if a = 3 then 4 else 0 :: u64) = Inr mem'
           \<and> (\<forall>i<4. unat (mem' (8 + i)) = (unat ((\<lambda>a. if a = 0 then 1 else if a = 1 then 2 else if a = 2 then 3 else if a = 3 then 4 else 0 :: u64) (0 + i)) * unat (5::u64)) mod unat (97::u64))"
  using EltwiseFMAModNative_null_correct [of 97 5 4 "(\<lambda>a. if a = 0 then 1 else if a = 1 then 2 else if a = 2 then 3 else if a = 3 then 4 else 0 :: u64)" 0 8]
  by (simp add: word_less_nat_alt)

text \<open>
  Claim C9 as stated fails for a modulus close to \<open>2 ^ 64\<close>: with \<open>q = 2 ^ 64 - 1\<close>,
  \<open>arg2 = 2 ^ 64 - 2\<close> and \<open>arg1 = [2 ^ 64 - 2]\<close> every precondition holds, the difference
  \<open>x * y - Q * q\<close> inside \<^verbatim>\<open>MultiplyMod\<close> wraps, and \<open>out[0]\<close> is 0 instead of 1.
\<close>

theorem EltwiseFMAModNative_null_counterexample:
  "(18446744073709551615 :: u64) \<noteq> 0
   \<and> (18446744073709551614 :: u64) < 18446744073709551615
   \<and> (\<lambda>a::nat. if a = 0 then 18446744073709551614 else 0 :: u64) 0 < 18446744073709551615
   \<and> map_sum id (\<lambda>mem'. unat (mem' 1))
         (EltwiseFMAModNative 0 18446744073709551614 None 1 1 18446744073709551615
            (\<lambda>a. if a = 0 then 18446744073709551614 else 0)) = Inr 0
   \<and> (unat ((\<lambda>a::nat. if a = 0 then 18446744073709551614 else 0 :: u64) 0)
          * unat (18446744073709551614 :: u64)) mod unat (18446744073709551615 :: u64) = 1"
  by (simp add: EltwiseFMAModNative_def MultiplyFactor_new_def DivideUInt128UInt64Lo_def
      BarrettFactor_def MultiplyMod4_def MultiplyUInt64Hi_def Let_def)

lemma fma_loop_arg3_at:
  assumes "out < arg1 \<or> arg1 + k \<le> out" and "out < arg3 \<or> arg3 + k \<le> out"
  shows "fma_loop_arg3 k arg1 arg2 arg3 out bf q mem a
     = (if out \<le> a \<and> a < out + k
        then AddUIntMod (mem (arg1 + (a - out))) (mem (arg3 + (a - out))) q
        else mem a)"
  using assms
proof (induction k arbitrary: arg1 arg3 out mem)
  case 0
  then show ?case by auto
next
  case (Suc k)
  let ?mem2 = "mem(out := AddUIntMod (mem arg1) (mem arg3) q)"
  have ne: "arg1 \<noteq> out" "arg3 \<noteq> out" using Suc.prems by auto
  have pre1: "out + 1 < arg1 + 1 \<or> arg1 + 1 + k \<le> out + 1" using Suc.prems by auto
  have pre3: "out + 1 < arg3 + 1 \<or> arg3 + 1 + k \<le> out + 1" using Suc.prems by auto
  have step: "fma_loop_arg3 (Suc k) arg1 arg2 arg3 out bf q mem a
      = fma_loop_arg3 k (arg1 + 1) arg2 (arg3 + 1) (out + 1) bf q ?mem2 a"
    using ne by (simp add: Let_def)
  show ?case
  proof (cases "out + 1 \<le> a \<and> a < out + 1 + k")
    case True
    then have "arg1 + 1 + (a - (out + 1)) = arg1 + (a - out)"
      "arg3 + 1 + (a - (out + 1)) = arg3 + (a - out)" by arith+
    moreover have "arg1 + (a - out) \<noteq> out" "arg3 + (a - out) \<noteq> out"
      using True Suc.prems by auto
    ultimately show ?thesis unfolding step Suc.IH [OF pre1 pre3] using True by simp
  next
    case False
    then show ?thesis unfolding step Suc.IH [OF pre1 pre3] by auto
  qed
qed

text \<open>
  Claim C2 says that, with \<^verbatim>\<open>arg3\<close> present, the kernel stores
  \<open>(arg1[i] * arg2 + arg3[i]) mod q\<close>.  The loop of \<^verbatim>\<open>EltwiseFMAModNative\<close> stores the
  product and then overwrites it with \<^verbatim>\<open>AddUIntMod(*arg1, *arg3, modulus)\<close>.  On the
  input \<open>arg1 = [1,2,3,4]\<close>, \<open>arg2 = 5\<close>, \<open>arg3 = [10,20,30,40]\<close>, \<open>q = 97\<close>, with
  \<^verbatim>\<open>out\<close> a separate buffer, it leaves \<open>[11,22,33,44]\<close> in \<^verbatim>\<open>out\<close>, where the claim asks
  for \<open>[15,30,45,60]\<close>.
\<close>

theorem EltwiseFMAModNative_arg3_failing_input:
  "\<exists>mem'. EltwiseFMAModNative 0 5 (Some 4) 8 4 97
              (\<lambda>a. if a = 0 then 1 else if a = 1 then 2 else if a = 2 then 3
                    else if a = 3 then 4 else if a = 4 then 10 else if a = 5 then 20
                    else if a = 6 then 30 else if a = 7 then 40 else 0) = Inr mem'
           \<and> map mem' [8, 9, 10, 11] = [11, 22, 33, 44]
           \<and> map (\<lambda>(x, z). word_of_nat ((unat x * unat (5::u64) + unat z) mod unat (97::u64)))
                 [(1, 10), (2, 20), (3, 30), (4, 40 :: u64) :: u64 \<times> u64]
               = [15, 30, 45, 60 :: u64]"
  by (simp add: EltwiseFMAModNative_def MultiplyFactor_new_def DivideUInt128UInt64Lo_def
      BarrettFactor_def fma_loop_arg3_at AddUIntMod_def)

text \<open>
  Claim C10 (as amended).  In a build with \<^verbatim>\<open>LATTICE_HAS_AVX512DQ\<close> defined, on a CPU
  that does not report avx512dq, every call of \<^verbatim>\<open>EltwiseFMAMod\<close> with a modulus other than
  0 that does not take the 52-bit IFMA branch of lines 36-44 returns with the memory, and so
  every element of \<^verbatim>\<open>out\<close>, unchanged: the \<^verbatim>\<open>return\<close> of line 52 is outside the
  capability guard and \<^verbatim>\<open>EltwiseFMAModNative\<close> is never reached.
\<close>

theorem EltwiseFMAMod_dq_missing:
  assumes "LATTICE_HAS_AVX512DQ build"
    and "\<not> has_avx512_dq cpu"
    and "\<not> (LATTICE_HAS_AVX512IFMA build \<and> has_avx512_ifma cpu \<and> modulus < push_bit 52 1)"
    and "modulus \<noteq> 0"
  shows "EltwiseFMAMod build cpu arg1 arg2 arg3 out n modulus mem = Inr mem"
  using assms by (auto simp: EltwiseFMAMod_def)

theorem EltwiseFMAMod_dq_missing_witness:
  "EltwiseFMAMod \<lparr>LATTICE_HAS_AVX512IFMA = False, LATTICE_HAS_AVX512DQ = True\<rparr>
       \<lparr>has_avx512_ifma = False, has_avx512_dq = False\<rparr> 0 5 (Some 4) 8 4 97 (\<lambda>a. 1)
     = Inr (\<lambda>a. 1)"
  using EltwiseFMAMod_dq_missing
    [of "\<lparr>LATTICE_HAS_AVX512IFMA = False, LATTICE_HAS_AVX512DQ = True\<rparr>"
        "\<lparr>has_avx512_ifma = False, has_avx512_dq = False\<rparr>" 97 0 5 "Some 4" 8 4 "\<lambda>a. 1"]
  by simp

text \<open>
  Claim C10 as stated does not exclude the IFMA branch, which comes first: in a build that
  also defines \<^verbatim>\<open>LATTICE_HAS_AVX512IFMA\<close>, with the flag \<^verbatim>\<open>has_avx512_ifma\<close> set and a
  modulus below \<open>2 ^ 52\<close>, the 52-bit kernel runs and writes \<^verbatim>\<open>out\<close> although avx512dq is
  not reported.
\<close>

theorem EltwiseFMAMod_dq_missing_counterexample:
  "LATTICE_HAS_AVX512DQ \<lparr>LATTICE_HAS_AVX512IFMA = True, LATTICE_HAS_AVX512DQ = True\<rparr>
   \<and> \<not> has_avx512_dq \<lparr>has_avx512_ifma = True, has_avx512_dq = False\<rparr>
   \<and> map_sum id (\<lambda>mem'. mem' 1)
         (EltwiseFMAMod \<lparr>LATTICE_HAS_AVX512IFMA = True, LATTICE_HAS_AVX512DQ = True\<rparr>
            \<lparr>has_avx512_ifma = True, has_avx512_dq = False\<rparr> 0 5 None 1 1 97
            (\<lambda>a. if a = 0 then 3 else 0)) = Inr 15
   \<and> (\<lambda>a::nat. if a = 0 then 3 else 0 :: u64) 1 = 0"
  by (simp add: EltwiseFMAMod_def MultiplyFactor_new_def DivideUInt128UInt64Lo_def
      BarrettFactor_def EltwiseFMAModAVX512_def Let_def)

section \<open>The loops of the transforms\<close>

declare fwd_loop_j.simps [simp del] fwd_loop_i.simps [simp del]

declare reduce_loop.simps [simp del]

declare ref_loop_j.simps [simp del] ref_loop_i.simps [simp del]

declare inv_loop_j.simps [simp del] inv_loop_i.simps [simp del] inv_loop_m.simps [simp del]
  inv_final_loop.simps [simp del]

lemma length_inner_gen [simp]: "length (inner_gen f g t j c es) = length es"
  by (induction c arbitrary: j es) simp_all

lemma length_level_gen [simp]: "length (level_gen F G t i c es) = length es"
  by (induction c arbitrary: i es) simp_all

lemma inner_gen_nth:
  assumes "c \<le> t" and "j + t + c \<le> length es" and "p < length es"
  shows "inner_gen f g t j c es ! p =
     (if j \<le> p \<and> p < j + c then f (es ! p) (es ! (p + t))
      else if j + t \<le> p \<and> p < j + t + c then g (es ! (p - t)) (es ! p)
      else es ! p)"
  using assms
proof (induction c arbitrary: j es)
  case 0
  then show ?case by auto
next
  case (Suc c)
  let ?es1 = "es[j := f (es ! j) (es ! (j + t)), j + t := g (es ! j) (es ! (j + t))]"
  have len: "length ?es1 = length es" by simp
  have IH: "inner_gen f g t (Suc j) c ?es1 ! p =
     (if Suc j \<le> p \<and> p < Suc j + c then f (?es1 ! p) (?es1 ! (p + t))
      else if Suc j + t \<le> p \<and> p < Suc j + t + c then g (?es1 ! (p - t)) (?es1 ! p)
      else ?es1 ! p)"
    using Suc.prems by (intro Suc.IH) simp_all
  have t0: "0 < t" using Suc.prems by simp
  have step: "inner_gen f g t j (Suc c) es ! p = inner_gen f g t (Suc j) c ?es1 ! p" by simp
  consider (X0) "p = j" | (Y0) "p = j + t" | (X) "Suc j \<le> p" "p < Suc j + c"
    | (Y) "Suc j + t \<le> p" "p < Suc j + t + c"
    | (O) "p < j \<or> (Suc j + c \<le> p \<and> p < j + t) \<or> Suc j + t + c \<le> p"
    by linarith
  then show ?case
  proof cases
    case X0
    have "?es1 ! p = f (es ! j) (es ! (j + t))" using X0 Suc.prems t0 by simp
    then show ?thesis unfolding step IH using X0 t0 by simp
  next
    case Y0
    have "?es1 ! p = g (es ! j) (es ! (j + t))" using Y0 Suc.prems t0 by simp
    then show ?thesis unfolding step IH using Y0 t0 Suc.prems by simp
  next
    case X
    then have "?es1 ! p = es ! p" "?es1 ! (p + t) = es ! (p + t)"
      using Suc.prems by simp_all
    then show ?thesis unfolding step IH using X by simp
  next
    case Y
    then have "?es1 ! p = es ! p" "?es1 ! (p - t) = es ! (p - t)"
      using Suc.prems by (simp_all add: nth_list_update)
    then show ?thesis unfolding step IH using Y Suc.prems by simp
  next
    case O
    then have "?es1 ! p = es ! p" using Suc.prems by (auto simp: nth_list_update)
    then show ?thesis unfolding step IH using O by auto
  qed
qed

lemma div_bounds:
  fixes T a b p :: nat
  assumes "0 < T" "T * a \<le> p" "p < T * b"
  shows "a \<le> p div T" and "p div T < b"
  using assms by (simp_all add: less_eq_div_iff_mult_less_eq div_less_iff_less_mult mult.commute)

lemma block_arith:
  fixes t d r :: nat
  assumes "p = 2 * t * d + r" "r < 2 * t"
  shows "r < t \<Longrightarrow> d < b \<Longrightarrow> p + t < 2 * t * b"
    and "\<not> r < t \<Longrightarrow> a \<le> d \<Longrightarrow> 2 * t * a \<le> p - t"
proof -
  show "p + t < 2 * t * b" if "r < t" "d < b"
  proof -
    have "Suc d \<le> b" using that by simp
    then have "2 * t * Suc d \<le> 2 * t * b" by (rule mult_le_mono2)
    moreover have "p + t < 2 * t * Suc d" using assms that by simp
    ultimately show ?thesis by linarith
  qed
  show "2 * t * a \<le> p - t" if "\<not> r < t" "a \<le> d"
  proof -
    have "2 * t * a \<le> 2 * t * d" using that by (intro mult_le_mono2)
    then show ?thesis using assms that by linarith
  qed
qed

lemma level_gen_nth:
  assumes "0 < t" and "2 * t * (i + c) \<le> length es" and "p < length es"
  shows "level_gen F G t i c es ! p =
     (if 2 * t * i \<le> p \<and> p < 2 * t * (i + c) then
        (if p mod (2 * t) < t then F (p div (2 * t)) (es ! p) (es ! (p + t))
         else G (p div (2 * t)) (es ! (p - t)) (es ! p))
      else es ! p)"
  using assms
proof (induction c arbitrary: i es)
  case 0
  then show ?case by auto
next
  case (Suc c)
  let ?es1 = "inner_gen (F i) (G i) t (2 * t * i) t es"
  define d where "d = p div (2 * t)"
  define r where "r = p mod (2 * t)"
  have T0: "0 < 2 * t" using Suc.prems(1) by simp
  have pdr: "p = 2 * t * d + r" unfolding d_def r_def by simp
  have rT: "r < 2 * t" unfolding r_def using T0 by simp
  have blk: "2 * t * Suc i = 2 * t * i + t + t" by simp
  have tot: "2 * t * (i + Suc c) = 2 * t * (Suc i + c)" by simp
  have bnd: "2 * t * i + t + t \<le> length es"
  proof -
    have "2 * t * Suc i \<le> 2 * t * (i + Suc c)" by (intro mult_le_mono2) simp
    then show ?thesis using Suc.prems(2) unfolding blk by linarith
  qed
  have es1: "?es1 ! x =
     (if 2 * t * i \<le> x \<and> x < 2 * t * i + t then F i (es ! x) (es ! (x + t))
      else if 2 * t * i + t \<le> x \<and> x < 2 * t * i + t + t then G i (es ! (x - t)) (es ! x)
      else es ! x)" if "x < length es" for x
    using inner_gen_nth [of t t "2 * t * i" es x "F i" "G i"] bnd that by simp
  have IH: "level_gen F G t (Suc i) c ?es1 ! p =
     (if 2 * t * Suc i \<le> p \<and> p < 2 * t * (Suc i + c) then
        (if r < t then F d (?es1 ! p) (?es1 ! (p + t))
         else G d (?es1 ! (p - t)) (?es1 ! p))
      else ?es1 ! p)"
    unfolding d_def r_def using Suc.prems by (intro Suc.IH) simp_all
  have step: "level_gen F G t i (Suc c) es ! p = level_gen F G t (Suc i) c ?es1 ! p" by simp
  have goal: "level_gen F G t i (Suc c) es ! p =
     (if 2 * t * i \<le> p \<and> p < 2 * t * (Suc i + c) then
        (if r < t then F d (es ! p) (es ! (p + t)) else G d (es ! (p - t)) (es ! p))
      else es ! p)"
  proof (cases "2 * t * Suc i \<le> p \<and> p < 2 * t * (Suc i + c)")
    case True
    then have lo: "2 * t * i \<le> p" unfolding blk by linarith
    have db: "Suc i \<le> d" "d < Suc i + c"
      unfolding d_def using div_bounds [OF T0, of "Suc i" p "Suc i + c"] True by simp_all
    have same: "?es1 ! p = es ! p" using True Suc.prems(3) unfolding blk by (simp add: es1)
    show ?thesis
    proof (cases "r < t")
      case T: True
      have "p + t < 2 * t * (Suc i + c)" using block_arith(1) [OF pdr rT T db(2)] .
      then have "p + t < length es" using Suc.prems(2) unfolding tot by linarith
      then have "?es1 ! (p + t) = es ! (p + t)" using True unfolding blk by (simp add: es1)
      then show ?thesis unfolding step IH using True T lo same by simp
    next
      case Fa: False
      have "2 * t * Suc i \<le> p - t" using block_arith(2) [OF pdr rT Fa db(1)] .
      moreover have "p - t < length es" using Suc.prems(3) by simp
      ultimately have "?es1 ! (p - t) = es ! (p - t)" unfolding blk by (simp add: es1)
      then show ?thesis unfolding step IH using True Fa lo same by simp
    qed
  next
    case False
    show ?thesis
    proof (cases "2 * t * i \<le> p \<and> p < 2 * t * i + t + t")
      case In: True
      have db: "i \<le> d" "d < Suc i"
        unfolding d_def using div_bounds [OF T0, of i p "Suc i"] In unfolding blk by simp_all
      then have d: "d = i" by simp
      have r: "r = p - 2 * t * i" using pdr d by simp
      have "?es1 ! p = (if r < t then F i (es ! p) (es ! (p + t))
                         else G i (es ! (p - t)) (es ! p))"
        using In Suc.prems(3) r by (auto simp: es1)
      moreover have "p < 2 * t * (Suc i + c)"
      proof -
        have "2 * t * Suc i \<le> 2 * t * (Suc i + c)" by (intro mult_le_mono2) simp
        then show ?thesis using In unfolding blk by linarith
      qed
      ultimately show ?thesis unfolding step IH using False In d by simp
    next
      case Out: False
      have e: "?es1 ! p = es ! p" using Out Suc.prems(3) by (auto simp: es1)
      have n1: "\<not> (2 * t * i \<le> p \<and> p < 2 * t * (Suc i + c))"
        using Out False unfolding blk by linarith
      show ?thesis unfolding step IH by (simp only: False n1 if_False e)
    qed
  qed
  show ?case using goal unfolding tot d_def r_def .
qed

lemma MultiplyModLazy_64_value:
  "W < q \<Longrightarrow> MultiplyModLazy 64 y W Wp q = Inr (W * y - MultiplyUInt64Hi 64 y Wp * q)"
  by (simp add: MultiplyModLazy_def MaximumValue_def)

lemma fwd_butterfly_value:
  assumes "X < length es" "Y < length es" "W < q"
  shows "fwd_butterfly q tw W Wp X Y es
     = Inr (es[X := fwdX q tw W Wp (es ! X) (es ! Y), Y := fwdY q tw W Wp (es ! X) (es ! Y)])"
  using assms
  by (simp add: fwd_butterfly_def load_def store_def MultiplyModLazy_64_value fwdX_def fwdY_def
      Let_def)

lemma fwd_loop_j_value:
  assumes "W < q" "j + t + c \<le> length es"
  shows "fwd_loop_j q tw W Wp j (j + c) j (j + t) es
     = Inr (inner_gen (fwdX q tw W Wp) (fwdY q tw W Wp) t j c es)"
  using assms
proof (induction c arbitrary: j es)
  case 0
  then show ?case by (simp add: fwd_loop_j.simps)
next
  case (Suc c)
  let ?es1 = "es[j := fwdX q tw W Wp (es ! j) (es ! (j + t)),
                 j + t := fwdY q tw W Wp (es ! j) (es ! (j + t))]"
  have b: "fwd_butterfly q tw W Wp j (j + t) es = Inr ?es1"
    using Suc.prems by (intro fwd_butterfly_value) simp_all
  have "fwd_loop_j q tw W Wp j (j + Suc c) j (j + t) es
      = fwd_loop_j q tw W Wp (Suc j) (Suc j + c) (Suc j) (Suc j + t) ?es1"
    by (subst fwd_loop_j.simps) (simp add: b)
  also have "\<dots> = Inr (inner_gen (fwdX q tw W Wp) (fwdY q tw W Wp) t (Suc j) c ?es1)"
    using Suc.prems by (intro Suc.IH) simp_all
  finally show ?case by simp
qed

lemma fwd_loop_i_value:
  assumes "i + c = m"
    and "\<forall>b<m. m + b < length roots \<and> m + b < length precon \<and> roots ! (m + b) < q"
    and "2 * t * m \<le> length es"
  shows "fwd_loop_i q tw roots precon m t i (2 * t * i) es
     = Inr (level_gen (\<lambda>b. fwdX q tw (roots ! (m + b)) (precon ! (m + b)))
                      (\<lambda>b. fwdY q tw (roots ! (m + b)) (precon ! (m + b))) t i c es)"
  using assms
proof (induction c arbitrary: i es)
  case 0
  then show ?case by (simp add: fwd_loop_i.simps)
next
  case (Suc c)
  let ?W = "roots ! (m + i)" and ?Wp = "precon ! (m + i)"
  let ?es1 = "inner_gen (fwdX q tw ?W ?Wp) (fwdY q tw ?W ?Wp) t (2 * t * i) t es"
  have im: "i < m" using Suc.prems(1) by simp
  have tab: "m + i < length roots" "m + i < length precon" "?W < q"
    using Suc.prems(2) im by simp_all
  have "2 * t * Suc i \<le> 2 * t * m" using im by (intro mult_le_mono2) simp
  then have bnd: "2 * t * i + t + t \<le> length es" using Suc.prems(3) by simp
  have j: "fwd_loop_j q tw ?W ?Wp (2 * t * i) (2 * t * i + t) (2 * t * i) (2 * t * i + t) es
      = Inr ?es1"
    using tab(3) bnd by (intro fwd_loop_j_value) simp_all
  have l: "load roots (m + i) = Inr ?W" "load precon (m + i) = Inr ?Wp"
    using tab by (simp_all add: load_def)
  have nx: "i + 1 = Suc i" "2 * t * i + 2 * t = 2 * t * Suc i" by simp_all
  have "fwd_loop_i q tw roots precon m t i (2 * t * i) es
      = fwd_loop_i q tw roots precon m t (i + 1) (2 * t * i + 2 * t) ?es1"
    by (subst fwd_loop_i.simps) (simp only: im if_True Let_def l j sum.case)
  also have "\<dots> = fwd_loop_i q tw roots precon m t (Suc i) (2 * t * Suc i) ?es1"
    by (simp only: nx)
  also have "\<dots> = Inr (level_gen (\<lambda>b. fwdX q tw (roots ! (m + b)) (precon ! (m + b)))
                      (\<lambda>b. fwdY q tw (roots ! (m + b)) (precon ! (m + b))) t (Suc i) c ?es1)"
    using Suc.prems by (intro Suc.IH) simp_all
  finally show ?case by simp
qed

lemma fwd_level_value:
  assumes "\<forall>b<m. m + b < length roots \<and> m + b < length precon \<and> roots ! (m + b) < q"
    and "2 * t * m \<le> length es"
  shows "fwd_loop_i q tw roots precon m t 0 0 es = Inr (fwd_level q tw roots precon m t es)"
  using fwd_loop_i_value [of 0 m m roots precon q t es tw] assms by (simp add: fwd_level_def)

lemma mask_csub:
  fixes x tw :: u64
  shows "x - (tw AND (- (if x \<ge> tw then 1 else 0))) = (if tw \<le> x then x - tw else x)"
  by simp

lemma csub2_unat:
  fixes x tw :: u64
  assumes tw: "unat tw = 2 * unat q" and x: "unat x < 4 * unat q"
  shows "unat (if tw \<le> x then x - tw else x) < 2 * unat q"
    and "unat (if tw \<le> x then x - tw else x) mod unat q = unat x mod unat q"
proof -
  have u: "unat (if tw \<le> x then x - tw else x)
      = (if 2 * unat q \<le> unat x then unat x - 2 * unat q else unat x)"
    unfolding csub_unat tw by simp
  show "unat (if tw \<le> x then x - tw else x) < 2 * unat q"
    unfolding u using x by (auto split: if_splits)
  show "unat (if tw \<le> x then x - tw else x) mod unat q = unat x mod unat q"
    unfolding u using sub_mult_mod_nat [of 2 "unat q" "unat x"] by (simp split: if_splits)
qed

lemma mod_add_cancel_nat:
  fixes a b c q :: nat
  assumes "(a + c) mod q = (b + c) mod q"
  shows "a mod q = b mod q"
proof -
  have "int ((a + c) mod q) = int ((b + c) mod q)" using assms by simp
  then have "(int a + int c) mod int q = (int b + int c) mod int q"
    by (simp add: zmod_int)
  then have "int q dvd (int a + int c) - (int b + int c)"
    by (simp only: mod_eq_dvd_iff)
  then have "int q dvd int a - int b" by simp
  then have "int a mod int q = int b mod int q" by (simp only: mod_eq_dvd_iff)
  then have "int (a mod q) = int (b mod q)" by (simp add: zmod_int)
  then show ?thesis by simp
qed

lemma fwd_values:
  assumes q0: "0 < unat q" and q62: "unat q < 2 ^ 62"
    and tw: "unat tw = 2 * unat q"
    and W: "W < q" and Wp: "unat Wp = (unat W * 2 ^ 64) div unat q"
    and x: "unat x < 4 * unat q"
  shows "unat (fwdX q tw W Wp x y) < 4 * unat q"
    and "unat (fwdY q tw W Wp x y) < 4 * unat q"
    and "unat (fwdX q tw W Wp x y) mod unat q = (unat x + unat W * unat y) mod unat q"
    and "(unat (fwdY q tw W Wp x y) + unat W * unat y) mod unat q = unat x mod unat q"
proof -
  define tx where "tx = (if tw \<le> x then x - tw else x)"
  define Q where "Q = W * y - MultiplyUInt64Hi 64 y Wp * q"
  have q2: "2 * unat q \<le> 2 ^ 64" using q62 by simp
  have yb: "unat y \<le> 2 ^ 64" using unat_lt64 [of y] by simp
  have txb: "unat tx < 2 * unat q" unfolding tx_def by (rule csub2_unat(1) [OF tw x])
  have txc: "unat tx mod unat q = unat x mod unat q"
    unfolding tx_def by (rule csub2_unat(2) [OF tw x])
  have Qb: "unat Q < 2 * unat q" unfolding Q_def by (rule lazy_core(1) [OF q0 q2 yb Wp])
  have Qc: "unat Q mod unat q = (unat W * unat y) mod unat q"
    unfolding Q_def using lazy_core(2) [OF q0 q2 yb Wp] by (simp add: mult.commute)
  have X: "fwdX q tw W Wp x y = tx + Q" by (simp add: fwdX_def tx_def Q_def)
  have Y: "fwdY q tw W Wp x y = tx + tw - Q" by (simp add: fwdY_def tx_def Q_def)
  have uX: "unat (tx + Q) = unat tx + unat Q"
    using txb Qb q62 by (intro unat_add_lem [THEN iffD1]) simp
  have uT: "unat (tx + tw) = unat tx + 2 * unat q"
    using txb q62 tw by (simp add: unat_add_lem [THEN iffD1])
  have "Q \<le> tx + tw" using Qb uT by (simp add: word_le_nat_alt)
  then have uY: "unat (tx + tw - Q) = unat tx + 2 * unat q - unat Q"
    using uT by (simp add: unat_sub)
  show "unat (fwdX q tw W Wp x y) < 4 * unat q" unfolding X uX using txb Qb by simp
  show "unat (fwdY q tw W Wp x y) < 4 * unat q" unfolding Y uY using txb Qb by simp
  show "unat (fwdX q tw W Wp x y) mod unat q = (unat x + unat W * unat y) mod unat q"
    unfolding X uX using txc Qc by (rule mod_add_cong)
  have "(unat (tx + tw - Q) + unat Q) mod unat q = (unat tx + 2 * unat q) mod unat q"
    unfolding uY using Qb by simp
  also have "\<dots> = unat x mod unat q" using txc by simp
  finally have "(unat (tx + tw - Q) + unat Q) mod unat q = unat x mod unat q" .
  moreover have "(unat (tx + tw - Q) + unat Q) mod unat q
      = (unat (tx + tw - Q) + unat W * unat y) mod unat q"
    using Qc by (intro mod_add_cong) simp_all
  ultimately show "(unat (fwdY q tw W Wp x y) + unat W * unat y) mod unat q = unat x mod unat q"
    unfolding Y by simp
qed

lemma pow2_and_pred: "((2::u64) ^ k) AND (2 ^ k - 1) = 0"
proof -
  have "(2::u64) ^ k - 1 = mask k" by (simp add: mask_eq_exp_minus_1)
  moreover have "((2::u64) ^ k) AND mask k = 0"
    by (metis and.commute and_zero_eq mod_word_self word_gt_0 word_mod_2p_is_mask)
  ultimately show ?thesis by simp
qed

lemma unat_pow2: 
  assumes "k < 64" shows "unat ((2::u64) ^ k) = 2 ^ k"
proof -
  have "(2::u64) ^ k = word_of_nat (2 ^ k)" by simp
  moreover have "(2::nat) ^ k < 2 ^ 64" using assms by (intro power_strict_increasing) simp_all
  ultimately show ?thesis by (simp only: unat_of_nat) simp
qed

lemma IsPowerOfTwo_pow2: "k < 64 \<Longrightarrow> IsPowerOfTwo ((2::u64) ^ k)"
  using unat_pow2 [of k] by (auto simp: IsPowerOfTwo_def pow2_and_pred)

lemma length_fwd_level [simp]: "length (fwd_level q tw roots precon m t es) = length es"
  by (simp add: fwd_level_def)

lemma length_fwd_prefix [simp]: "length (fwd_prefix q tw roots precon k i es) = length es"
  by (induction i) simp_all

lemma pow2_half: "a < k \<Longrightarrow> (2::nat) ^ (k - a) div 2 = 2 ^ (k - Suc a)"
proof -
  assume "a < k"
  then have "k - a = Suc (k - Suc a)" by simp
  then show ?thesis by simp
qed

lemma pow2_split: "a < k \<Longrightarrow> 2 * (2::nat) ^ (k - Suc a) * 2 ^ a = 2 ^ k"
proof -
  assume "a < k"
  then have "k = Suc (k - Suc a) + a" by simp
  then have "(2::nat) ^ k = 2 ^ (Suc (k - Suc a) + a)" by simp
  then show ?thesis by (simp only: power_add power_Suc)
qed

lemma fwd_tables_level:
  assumes "forward_tables_ok k q roots precon" "a < k"
  shows "\<forall>b<2 ^ a. 2 ^ a + b < length roots \<and> 2 ^ a + b < length precon
            \<and> roots ! (2 ^ a + b) < q
            \<and> unat (precon ! (2 ^ a + b)) = (unat (roots ! (2 ^ a + b)) * 2 ^ 64) div unat q"
proof (intro allI impI)
  fix b :: nat assume b: "b < 2 ^ a"
  have "(2::nat) ^ Suc a \<le> 2 ^ k" using assms(2) by (intro power_increasing) simp_all
  then have "2 ^ a + b < 2 ^ k" using b by simp
  moreover have "1 \<le> (2::nat) ^ a + b" by (simp add: Suc_le_eq trans_less_add1)
  ultimately have "2 ^ a + b \<in> {1..<2 ^ k}" by simp
  then show "2 ^ a + b < length roots \<and> 2 ^ a + b < length precon
            \<and> roots ! (2 ^ a + b) < q
            \<and> unat (precon ! (2 ^ a + b)) = (unat (roots ! (2 ^ a + b)) * 2 ^ 64) div unat q"
    using assms(1) unfolding forward_tables_ok_def by auto
qed

lemma fwd_loop_m_value:
  assumes tab: "forward_tables_ok k q roots precon"
    and len: "length es = 2 ^ k"
    and "a + r = i" "i \<le> k"
  shows "fwd_loop_m q tw roots precon (2 ^ i) (2 ^ a) (2 ^ (k - a) div 2)
           (fwd_prefix q tw roots precon k a es)
         = Some (Inr (fwd_prefix q tw roots precon k i es))"
  using assms(3,4)
proof (induction r arbitrary: a)
  case 0
  then show ?case by (subst fwd_loop_m.simps) simp
next
  case (Suc r)
  let ?st = "fwd_prefix q tw roots precon k a es"
  have ak: "a < k" and ai: "a < i" using Suc.prems by simp_all
  have lt: "(2::nat) ^ a < 2 ^ i" using ai by (intro power_strict_increasing) simp_all
  have t: "(2::nat) ^ (k - a) div 2 = 2 ^ (k - Suc a)" using ak by (rule pow2_half)
  have lv: "fwd_loop_i q tw roots precon (2 ^ a) (2 ^ (k - Suc a)) 0 0 ?st
      = Inr (fwd_level q tw roots precon (2 ^ a) (2 ^ (k - Suc a)) ?st)"
    using fwd_tables_level [OF tab ak] pow2_split [OF ak] len
    by (intro fwd_level_value) simp_all
  have "fwd_loop_m q tw roots precon (2 ^ i) (2 ^ a) (2 ^ (k - a) div 2) ?st
      = fwd_loop_m q tw roots precon (2 ^ i) (2 * 2 ^ a) (2 ^ (k - Suc a) div 2)
          (fwd_level q tw roots precon (2 ^ a) (2 ^ (k - Suc a)) ?st)"
    by (subst fwd_loop_m.simps) (simp only: lt if_True t lv sum.case)
  also have "\<dots> = fwd_loop_m q tw roots precon (2 ^ i) (2 ^ Suc a) (2 ^ (k - Suc a) div 2)
          (fwd_prefix q tw roots precon k (Suc a) es)"
    by simp
  also have "\<dots> = Some (Inr (fwd_prefix q tw roots precon k i es))"
    using Suc.prems by (intro Suc.IH) simp_all
  finally show ?case .
qed

lemma level_full_nth:
  assumes "0 < t" and "length es = 2 * t * m" and "p < length es"
  shows "level_gen F G t 0 m es ! p =
           (if p mod (2 * t) < t then F (p div (2 * t)) (es ! p) (es ! (p + t))
            else G (p div (2 * t)) (es ! (p - t)) (es ! p))"
    and "p div (2 * t) < m"
    and "p mod (2 * t) < t \<Longrightarrow> p + t < length es"
    and "\<not> p mod (2 * t) < t \<Longrightarrow> t \<le> p"
proof -
  have T0: "0 < 2 * t" using assms(1) by simp
  show "level_gen F G t 0 m es ! p =
           (if p mod (2 * t) < t then F (p div (2 * t)) (es ! p) (es ! (p + t))
            else G (p div (2 * t)) (es ! (p - t)) (es ! p))"
    using level_gen_nth [of t 0 m es p F G] assms by simp
  show d: "p div (2 * t) < m"
    using div_bounds(2) [OF T0, of 0 p m] assms by simp
  have pdr: "p = 2 * t * (p div (2 * t)) + p mod (2 * t)" by simp
  have rT: "p mod (2 * t) < 2 * t" using T0 by simp
  show "p + t < length es" if "p mod (2 * t) < t"
    using block_arith(1) [OF pdr rT that d] assms(2) by simp
  show "t \<le> p" if "\<not> p mod (2 * t) < t"
  proof -
    have "p mod (2 * t) \<le> p" by simp
    then show ?thesis using that by linarith
  qed
qed

lemma fwd_level_in4q:
  assumes q0: "0 < unat q" and q62: "unat q < 2 ^ 62" and tw: "unat tw = 2 * unat q"
    and tab: "\<forall>b<m. roots ! (m + b) < q
                \<and> unat (precon ! (m + b)) = (unat (roots ! (m + b)) * 2 ^ 64) div unat q"
    and t: "0 < t" and len: "length es = 2 * t * m"
    and inv: "in4q q es"
  shows "in4q q (fwd_level q tw roots precon m t es)"
  unfolding in4q_def all_set_conv_all_nth
proof (intro allI impI)
  fix p assume "p < length (fwd_level q tw roots precon m t es)"
  then have p: "p < length es" by simp
  let ?b = "p div (2 * t)"
  note L = level_full_nth [OF t len p]
  have b: "roots ! (m + ?b) < q"
    "unat (precon ! (m + ?b)) = (unat (roots ! (m + ?b)) * 2 ^ 64) div unat q"
    using tab L(2) by simp_all
  have e: "unat (es ! i) < 4 * unat q" if "i < length es" for i
    using inv that unfolding in4q_def all_set_conv_all_nth by simp
  show "unat (fwd_level q tw roots precon m t es ! p) < 4 * unat q"
  proof (cases "p mod (2 * t) < t")
    case True
    then show ?thesis
      unfolding fwd_level_def L(1)
      using fwd_values(1) [OF q0 q62 tw b e [OF p]] by simp
  next
    case False
    have "p - t < length es" using p by simp
    then show ?thesis
      unfolding fwd_level_def L(1)
      using False fwd_values(2) [OF q0 q62 tw b e] by simp
  qed
qed

lemma fwd_prefix_in4q:
  assumes q0: "0 < unat q" and q62: "unat q < 2 ^ 62" and tw: "unat tw = 2 * unat q"
    and tab: "forward_tables_ok k q roots precon"
    and len: "length es = 2 ^ k" and inv: "in4q q es" and i: "i \<le> k"
  shows "in4q q (fwd_prefix q tw roots precon k i es)"
  using i
proof (induction i)
  case 0
  then show ?case using inv by simp
next
  case (Suc i)
  have ik: "i < k" using Suc.prems by simp
  have "in4q q (fwd_prefix q tw roots precon k i es)" using Suc by simp
  moreover have "length (fwd_prefix q tw roots precon k i es) = 2 * 2 ^ (k - Suc i) * 2 ^ i"
    using pow2_split [OF ik] len by simp
  ultimately show ?case
    using fwd_tables_level [OF tab ik]
    by (simp only: fwd_prefix.simps) (intro fwd_level_in4q [OF q0 q62 tw], simp_all)
qed

lemma reduce_value:
  fixes v q tw :: u64
  assumes q0: "0 < unat q" and tw: "unat tw = 2 * unat q" and v: "unat v < 4 * unat q"
  shows "(if q \<le> (if tw \<le> v then v - tw else v) then (if tw \<le> v then v - tw else v) - q
          else (if tw \<le> v then v - tw else v)) = v mod q"
proof -
  define v1 where "v1 = (if tw \<le> v then v - tw else v)"
  have b: "unat v1 < 2 * unat q" unfolding v1_def by (rule csub2_unat(1) [OF tw v])
  have c: "unat v1 mod unat q = unat v mod unat q"
    unfolding v1_def by (rule csub2_unat(2) [OF tw v])
  have "unat (if q \<le> v1 then v1 - q else v1) = unat v mod unat q"
    unfolding csub_unat using b c by (simp add: csub_mod_nat)
  then have "(if q \<le> v1 then v1 - q else v1) = v mod q"
    by (simp only: word_unat_eq_iff unat_mod)
  then show ?thesis unfolding v1_def .
qed

lemma word_mod_less: "0 < unat q \<Longrightarrow> (v::u64) mod q < q"
  by (simp add: word_less_nat_alt unat_mod)

lemma reduce_loop_value:
  assumes q0: "0 < unat q" and tw: "unat tw = 2 * unat q"
    and "n = length es" and "i + c = n"
    and "\<forall>p. i \<le> p \<and> p < n \<longrightarrow> unat (es ! p) < 4 * unat q"
  shows "reduce_loop q tw n i es = Inr (take i es @ map (\<lambda>x. x mod q) (drop i es))"
  using assms(3-)
proof (induction c arbitrary: i es)
  case 0
  then show ?case by (subst reduce_loop.simps) simp
next
  case (Suc c)
  have i: "i < n" "i < length es" using Suc.prems by simp_all
  let ?v = "es ! i"
  have v: "unat ?v < 4 * unat q" using Suc.prems(3) i by simp
  let ?es1 = "es[i := ?v mod q]"
  have l: "load es i = Inr ?v" using i by (simp add: load_def)
  have s: "store es i (?v mod q) = Inr ?es1" using i by (simp add: store_def)
  have "reduce_loop q tw n i es = reduce_loop q tw n (i + 1) ?es1"
    by (subst reduce_loop.simps)
       (simp only: i if_True l sum.case Let_def reduce_value [OF q0 tw v]
          word_mod_less [OF q0] not_True_eq_False if_False s)
  also have "\<dots> = Inr (take (i + 1) ?es1 @ map (\<lambda>x. x mod q) (drop (i + 1) ?es1))"
    using Suc.prems by (intro Suc.IH) simp_all
  also have "take (i + 1) ?es1 @ map (\<lambda>x. x mod q) (drop (i + 1) ?es1)
      = take i es @ map (\<lambda>x. x mod q) (drop i es)"
  proof -
    have "take (i + 1) ?es1 = take i es @ [?v mod q]"
      using i by (simp add: take_Suc_conv_app_nth)
    moreover have "drop (i + 1) ?es1 = drop (Suc i) es" by simp
    moreover have "drop i es = ?v # drop (Suc i) es"
      using i by (simp add: Cons_nth_drop_Suc)
    ultimately show ?thesis by simp
  qed
  finally show ?case .
qed

lemma reduce_loop_all:
  assumes q0: "0 < unat q" and tw: "unat tw = 2 * unat q" and "in4q q es"
  shows "reduce_loop q tw (length es) 0 es = Inr (map (\<lambda>x. x mod q) es)"
  using reduce_loop_value [OF q0 tw, of "length es" es 0 "length es"] assms(3)
  by (simp add: in4q_def)

lemma twice_mod_unat:
  assumes "unat (q::u64) < 2 ^ 62"
  shows "unat (push_bit 1 q) = 2 * unat q"
proof -
  have "push_bit 1 q = (word_of_nat (2 * unat q) :: u64)" by (simp add: push_bit_eq_mult)
  then show ?thesis using assms by (simp only: unat_of_nat) simp
qed

lemma admissible_facts:
  assumes k: "1 \<le> k" and deg: "unat (degree::u64) = 2 ^ k"
    and q1: "1 < unat (q::u64)" and q62: "unat q < 2 ^ 62"
    and qm: "unat q mod (2 * 2 ^ k) = 1"
  shows "k < 61" and "CheckArguments degree q" and "degree = 2 ^ k"
proof -
  have "(2::nat) * 2 ^ k \<le> unat q"
  proof (rule ccontr)
    assume "\<not> 2 * 2 ^ k \<le> unat q"
    then have "unat q mod (2 * 2 ^ k) = unat q" by simp
    then show False using qm q1 by simp
  qed
  then have "(2::nat) ^ Suc k < 2 ^ 62" using q62 by simp
  then have "Suc k < 62" by (simp only: power_strict_increasing_iff)
  then show k61: "k < 61" by simp
  have k64: "k < 64" using k61 by simp
  have "degree = word_of_nat (unat degree)" by simp
  then show d: "degree = 2 ^ k" unfolding deg by simp
  have p2: "IsPowerOfTwo degree" unfolding d using k64 by (rule IsPowerOfTwo_pow2)
  have "(2::nat) ^ 1 \<le> 2 ^ k" using k by (intro power_increasing) simp_all
  then have ge2: "2 \<le> degree" using deg by (simp add: word_le_nat_alt)
  have "(2::nat) ^ Suc k < 2 ^ 64" using k61 by (intro power_strict_increasing) simp_all
  then have u2: "unat (2 * degree) = 2 * 2 ^ k"
    using deg by (simp add: unat_word_ariths)
  have "unat (q mod (2 * degree)) = 1" unfolding unat_mod u2 by (rule qm)
  then have "q mod (2 * degree) = 1" by (simp add: word_unat_eq_iff)
  moreover have "q \<noteq> 0" using q1 by auto
  ultimately show "CheckArguments degree q"
    using p2 ge2 by (simp add: CheckArguments_def)
qed

lemma forward_value:
  assumes k: "1 \<le> k" and deg: "unat degree = 2 ^ k"
    and q1: "1 < unat q" and q62: "unat q < 2 ^ 62"
    and qm: "unat q mod (2 * 2 ^ k) = 1"
    and tab: "forward_tables_ok k q roots precon"
    and len: "length es = 2 ^ k" and inp: "in4q q es"
  shows "ForwardTransformToBitReverse64 degree q roots precon es
     = Some (Inr (map (\<lambda>x. x mod q) (fwd_prefix q (push_bit 1 q) roots precon k k es)))"
proof -
  let ?tw = "push_bit 1 q"
  let ?out = "fwd_prefix q ?tw roots precon k k es"
  note A = admissible_facts [OF k deg q1 q62 qm]
  have q0: "0 < unat q" using q1 by simp
  have tw: "unat ?tw = 2 * unat q" using q62 by (rule twice_mod_unat)
  have "fwd_loop_m q ?tw roots precon (2 ^ k) (2 ^ 0) (2 ^ (k - 0) div 2)
          (fwd_prefix q ?tw roots precon k 0 es) = Some (Inr ?out)"
    using tab len by (intro fwd_loop_m_value) simp_all
  then have lp: "fwd_loop_m q ?tw roots precon (unat degree) 1 (unat degree div 2) es
      = Some (Inr ?out)"
    unfolding deg by simp
  have "in4q q ?out" using fwd_prefix_in4q [OF q0 q62 tw tab len inp] by simp
  then have "reduce_loop q ?tw (length ?out) 0 ?out = Inr (map (\<lambda>x. x mod q) ?out)"
    by (rule reduce_loop_all [OF q0 tw])
  then have rd: "reduce_loop q ?tw (unat degree) 0 ?out = Inr (map (\<lambda>x. x mod q) ?out)"
    unfolding deg using len by simp
  show ?thesis
    unfolding ForwardTransformToBitReverse64_def Let_def
    by (simp only: A(2) not_True_eq_False if_False lp option.case sum.case rd)
qed

lemma in4q_update:
  assumes "in4q q s" "unat a < 4 * unat q" "unat b < 4 * unat q"
  shows "in4q q (s[X := a, Y := b])"
proof -
  have "set (s[X := a, Y := b]) \<subseteq> insert b (insert a (set s))"
    by (meson insert_mono order_trans set_update_subset_insert)
  then show ?thesis using assms unfolding in4q_def by auto
qed

lemma lt_q_in4q: "\<forall>x\<in>set es. x < q \<Longrightarrow> in4q q es"
  unfolding in4q_def by (auto simp: word_less_nat_alt)

text \<open>
  Claim C5.  For every admissible degree \<open>N = 2 ^ k\<close> and modulus \<open>q\<close> (\<open>q < 2 ^ 62\<close>,
  \<open>q mod 2N = 1\<close>; primality of \<open>q\<close> is not needed), with correctly built tables, and every
  input with all elements in \<open>[0, q)\<close>: the forward transform keeps every element in
  \<open>[0, 4q)\<close>.  The state after each of the \<open>k\<close> levels (the loop over \<open>m\<close> stopped at
  \<open>2 ^ i\<close>) is in \<open>[0, 4q)\<close>; every butterfly, run on any state in \<open>[0, 4q)\<close>, reads
  such values and leaves a state in \<open>[0, 4q)\<close>, so the invariant holds inductively from the
  input on; and the transform returns with every element of the output in \<open>[0, q)\<close>.
\<close>

theorem forward_lazy_range:
  assumes k: "1 \<le> k" and deg: "unat degree = 2 ^ k"
    and q1: "1 < unat q" and q62: "unat q < 2 ^ 62"
    and qm: "unat q mod (2 * 2 ^ k) = 1"
    and tab: "forward_tables_ok k q roots precon"
    and len: "length input = 2 ^ k" and inp: "\<forall>x\<in>set input. x < q"
  shows "(\<forall>i\<le>k. \<exists>s. fwd_loop_m q (push_bit 1 q) roots precon (2 ^ i) 1 (unat degree div 2) input
                       = Some (Inr s)
                  \<and> length s = 2 ^ k \<and> (\<forall>x\<in>set s. unat x < 4 * unat q))
       \<and> (\<forall>s X Y j. length s = 2 ^ k \<and> (\<forall>x\<in>set s. unat x < 4 * unat q)
              \<and> X < 2 ^ k \<and> Y < 2 ^ k \<and> 1 \<le> j \<and> j < 2 ^ k \<longrightarrow>
              (\<exists>s'. fwd_butterfly q (push_bit 1 q) (roots ! j) (precon ! j) X Y s = Inr s'
                  \<and> length s' = 2 ^ k \<and> (\<forall>x\<in>set s'. unat x < 4 * unat q)))
       \<and> (\<exists>out. ForwardTransformToBitReverse64 degree q roots precon input = Some (Inr out)
              \<and> length out = 2 ^ k \<and> (\<forall>x\<in>set out. x < q))"
proof (intro conjI allI impI)
  let ?tw = "push_bit 1 q"
  have q0: "0 < unat q" using q1 by simp
  have tw: "unat ?tw = 2 * unat q" using q62 by (rule twice_mod_unat)
  have i4: "in4q q input" using inp by (rule lt_q_in4q)
  {
    fix i assume i: "i \<le> k"
    let ?s = "fwd_prefix q ?tw roots precon k i input"
    have "fwd_loop_m q ?tw roots precon (2 ^ i) (2 ^ 0) (2 ^ (k - 0) div 2)
            (fwd_prefix q ?tw roots precon k 0 input) = Some (Inr ?s)"
      using tab len i by (intro fwd_loop_m_value) simp_all
    then have "fwd_loop_m q ?tw roots precon (2 ^ i) 1 (unat degree div 2) input = Some (Inr ?s)"
      unfolding deg by simp
    moreover have "in4q q ?s" by (rule fwd_prefix_in4q [OF q0 q62 tw tab len i4 i])
    ultimately show "\<exists>s. fwd_loop_m q ?tw roots precon (2 ^ i) 1 (unat degree div 2) input
                       = Some (Inr s)
                  \<and> length s = 2 ^ k \<and> (\<forall>x\<in>set s. unat x < 4 * unat q)"
      using len unfolding in4q_def by auto
  }
  {
    fix s :: "u64 list" and X Y j :: nat
    assume h: "length s = 2 ^ k \<and> (\<forall>x\<in>set s. unat x < 4 * unat q)
              \<and> X < 2 ^ k \<and> Y < 2 ^ k \<and> 1 \<le> j \<and> j < 2 ^ k"
    then have XY: "X < length s" "Y < length s" and s4: "in4q q s" by (simp_all add: in4q_def)
    have "j \<in> {1..<2 ^ k}" using h by simp
    then have W: "roots ! j < q"
      and Wp: "unat (precon ! j) = (unat (roots ! j) * 2 ^ 64) div unat q"
      using tab unfolding forward_tables_ok_def by auto
    let ?a = "fwdX q ?tw (roots ! j) (precon ! j) (s ! X) (s ! Y)"
    let ?b = "fwdY q ?tw (roots ! j) (precon ! j) (s ! X) (s ! Y)"
    have x: "unat (s ! X) < 4 * unat q" using s4 XY(1) unfolding in4q_def by simp
    have "fwd_butterfly q ?tw (roots ! j) (precon ! j) X Y s = Inr (s[X := ?a, Y := ?b])"
      using XY W by (rule fwd_butterfly_value)
    moreover have "in4q q (s[X := ?a, Y := ?b])"
      using s4 fwd_values(1) [OF q0 q62 tw W Wp x] fwd_values(2) [OF q0 q62 tw W Wp x]
      by (rule in4q_update)
    ultimately show "\<exists>s'. fwd_butterfly q ?tw (roots ! j) (precon ! j) X Y s = Inr s'
                  \<and> length s' = 2 ^ k \<and> (\<forall>x\<in>set s'. unat x < 4 * unat q)"
      using h unfolding in4q_def by auto
  }
  let ?out = "map (\<lambda>x. x mod q) (fwd_prefix q ?tw roots precon k k input)"
  have "ForwardTransformToBitReverse64 degree q roots precon input = Some (Inr ?out)"
    by (rule forward_value [OF k deg q1 q62 qm tab len i4])
  moreover have "\<forall>x\<in>set ?out. x < q" using word_mod_less [OF q0] by auto
  ultimately show "\<exists>out. ForwardTransformToBitReverse64 degree q roots precon input = Some (Inr out)
              \<and> length out = 2 ^ k \<and> (\<forall>x\<in>set out. x < q)"
    using len by auto
qed

theorem forward_lazy_range_witness:
  "forward_tables_ok 3 17 [1, 13, 9, 15, 3, 5, 10, 11]
     [1085102592571150095, 14106333703424951235, 9765923333140350855, 16276538888567251425,
      3255307777713450285, 5425512962855750475, 10851025925711500950, 11936128518282651045]
   \<and> unat (8::u64) = 2 ^ 3 \<and> unat (17::u64) mod (2 * 2 ^ 3) = 1
   \<and> (\<exists>out. ForwardTransformToBitReverse64 8 17 [1, 13, 9, 15, 3, 5, 10, 11]
           [1085102592571150095, 14106333703424951235, 9765923333140350855, 16276538888567251425,
      3255307777713450285, 5425512962855750475, 10851025925711500950, 11936128518282651045]
           [1, 2, 3, 4, 5, 6, 7, 8] = Some (Inr out)
         \<and> length out = 2 ^ 3 \<and> (\<forall>x\<in>set out. x < 17))"
proof -
  have t: "forward_tables_ok 3 17 [1, 13, 9, 15, 3, 5, 10, 11]
     [1085102592571150095, 14106333703424951235, 9765923333140350855, 16276538888567251425,
      3255307777713450285, 5425512962855750475, 10851025925711500950, 11936128518282651045]"
    by (simp add: forward_tables_ok_def atLeastLessThan_upt upt_conv_Cons)
  from forward_lazy_range [of 3 8 17 "[1, 13, 9, 15, 3, 5, 10, 11]"
     "[1085102592571150095, 14106333703424951235, 9765923333140350855, 16276538888567251425,
      3255307777713450285, 5425512962855750475, 10851025925711500950, 11936128518282651045]"
     "[1, 2, 3, 4, 5, 6, 7, 8]", OF _ _ _ _ _ t]
  show ?thesis using t by simp
qed

lemma length_ref_level [simp]: "length (ref_level q roots m t es) = length es"
  by (simp add: ref_level_def)

lemma length_ref_prefix [simp]: "length (ref_prefix q roots k i es) = length es"
  by (induction i) simp_all

lemma ref_butterfly_value:
  assumes "X < length es" "Y < length es"
  shows "ref_butterfly q W X Y es
     = Inr (es[X := refX q W (es ! X) (es ! Y), Y := refY q W (es ! X) (es ! Y)])"
  using assms by (simp add: ref_butterfly_def load_def store_def refX_def refY_def Let_def)

lemma ref_loop_j_value:
  assumes "j + t + c \<le> length es"
  shows "ref_loop_j q W j (j + c) j (j + t) es = Inr (inner_gen (refX q W) (refY q W) t j c es)"
  using assms
proof (induction c arbitrary: j es)
  case 0
  then show ?case by (simp add: ref_loop_j.simps)
next
  case (Suc c)
  let ?es1 = "es[j := refX q W (es ! j) (es ! (j + t)), j + t := refY q W (es ! j) (es ! (j + t))]"
  have b: "ref_butterfly q W j (j + t) es = Inr ?es1"
    using Suc.prems by (intro ref_butterfly_value) simp_all
  have "ref_loop_j q W j (j + Suc c) j (j + t) es
      = ref_loop_j q W (Suc j) (Suc j + c) (Suc j) (Suc j + t) ?es1"
    by (subst ref_loop_j.simps) (simp add: b)
  also have "\<dots> = Inr (inner_gen (refX q W) (refY q W) t (Suc j) c ?es1)"
    using Suc.prems by (intro Suc.IH) simp_all
  finally show ?case by simp
qed

lemma ref_loop_i_value:
  assumes "i + c = m"
    and "\<forall>b<m. m + b < length roots"
    and "2 * t * m \<le> length es"
  shows "ref_loop_i q roots m t i (2 * t * i) es
     = Inr (level_gen (\<lambda>b. refX q (roots ! (m + b))) (\<lambda>b. refY q (roots ! (m + b))) t i c es)"
  using assms
proof (induction c arbitrary: i es)
  case 0
  then show ?case by (simp add: ref_loop_i.simps)
next
  case (Suc c)
  let ?W = "roots ! (m + i)"
  let ?es1 = "inner_gen (refX q ?W) (refY q ?W) t (2 * t * i) t es"
  have im: "i < m" using Suc.prems(1) by simp
  have "2 * t * Suc i \<le> 2 * t * m" using im by (intro mult_le_mono2) simp
  then have bnd: "2 * t * i + t + t \<le> length es" using Suc.prems(3) by simp
  have j: "ref_loop_j q ?W (2 * t * i) (2 * t * i + t) (2 * t * i) (2 * t * i + t) es = Inr ?es1"
    using bnd by (intro ref_loop_j_value) simp_all
  have l: "load roots (m + i) = Inr ?W" using Suc.prems(2) im by (simp add: load_def)
  have nx: "i + 1 = Suc i" "2 * t * i + 2 * t = 2 * t * Suc i" by simp_all
  have "ref_loop_i q roots m t i (2 * t * i) es
      = ref_loop_i q roots m t (i + 1) (2 * t * i + 2 * t) ?es1"
    by (subst ref_loop_i.simps) (simp only: im if_True Let_def l j sum.case)
  also have "\<dots> = ref_loop_i q roots m t (Suc i) (2 * t * Suc i) ?es1"
    by (simp only: nx)
  also have "\<dots> = Inr (level_gen (\<lambda>b. refX q (roots ! (m + b))) (\<lambda>b. refY q (roots ! (m + b)))
                        t (Suc i) c ?es1)"
    using Suc.prems by (intro Suc.IH) simp_all
  finally show ?case by simp
qed

lemma ref_level_value:
  assumes "\<forall>b<m. m + b < length roots" and "2 * t * m \<le> length es"
  shows "ref_loop_i q roots m t 0 0 es = Inr (ref_level q roots m t es)"
  using ref_loop_i_value [of 0 m m roots t es q] assms by (simp add: ref_level_def)

lemma ref_loop_m_value:
  assumes tab: "length roots = 2 ^ k"
    and len: "length es = 2 ^ k"
    and "a + r = i" "i \<le> k"
  shows "ref_loop_m q roots (2 ^ i) (2 ^ a) (2 ^ (k - a) div 2) (ref_prefix q roots k a es)
         = Some (Inr (ref_prefix q roots k i es))"
  using assms(3,4)
proof (induction r arbitrary: a)
  case 0
  then show ?case by (subst ref_loop_m.simps) simp
next
  case (Suc r)
  let ?st = "ref_prefix q roots k a es"
  have ak: "a < k" and ai: "a < i" using Suc.prems by simp_all
  have lt: "(2::nat) ^ a < 2 ^ i" using ai by (intro power_strict_increasing) simp_all
  have t: "(2::nat) ^ (k - a) div 2 = 2 ^ (k - Suc a)" using ak by (rule pow2_half)
  have "(2::nat) ^ Suc a \<le> 2 ^ k" using ak by (intro power_increasing) simp_all
  then have rt: "\<forall>b<2 ^ a. 2 ^ a + b < length roots" using tab by simp
  have lv: "ref_loop_i q roots (2 ^ a) (2 ^ (k - Suc a)) 0 0 ?st
      = Inr (ref_level q roots (2 ^ a) (2 ^ (k - Suc a)) ?st)"
    using rt pow2_split [OF ak] len by (intro ref_level_value) simp_all
  have "ref_loop_m q roots (2 ^ i) (2 ^ a) (2 ^ (k - a) div 2) ?st
      = ref_loop_m q roots (2 ^ i) (2 * 2 ^ a) (2 ^ (k - Suc a) div 2)
          (ref_level q roots (2 ^ a) (2 ^ (k - Suc a)) ?st)"
    by (subst ref_loop_m.simps) (simp only: lt if_True t lv sum.case)
  also have "\<dots> = ref_loop_m q roots (2 ^ i) (2 ^ Suc a) (2 ^ (k - Suc a) div 2)
          (ref_prefix q roots k (Suc a) es)"
    by simp
  also have "\<dots> = Some (Inr (ref_prefix q roots k i es))"
    using Suc.prems by (intro Suc.IH) simp_all
  finally show ?case .
qed

lemma ref_values:
  assumes q0: "0 < unat q" and q62: "unat q < 2 ^ 62"
    and tw: "unat tw = 2 * unat q"
    and W: "W < q" and Wp: "unat Wp = (unat W * 2 ^ 64) div unat q"
    and x: "unat x < 4 * unat q"
  shows "refX q W (x mod q) (y mod q) = fwdX q tw W Wp x y mod q"
    and "refY q W (x mod q) (y mod q) = fwdY q tw W Wp x y mod q"
proof -
  let ?q = "unat q"
  define wy where "wy = MultiplyMod (y mod q) W q"
  have q64: "?q < 2 ^ 64" using q62 by simp
  have wyu: "unat wy = ((unat y mod ?q) * unat W) mod ?q"
  proof -
    have "((unat y mod ?q) * unat W) mod ?q < 2 ^ 64"
      using q0 q64 by (meson mod_less_divisor less_trans)
    then show ?thesis unfolding wy_def MultiplyMod_def
      by (simp add: unat_of_nat unat_mod)
  qed
  have wyc: "unat wy mod ?q = (unat W * unat y) mod ?q"
  proof -
    have "unat wy mod ?q = ((unat y mod ?q) * unat W) mod ?q" unfolding wyu by simp
    also have "\<dots> = (unat y * unat W) mod ?q" by (rule mod_mult_left_eq)
    also have "unat y * unat W = unat W * unat y" by (rule mult.commute)
    finally show ?thesis .
  qed
  have wyb: "unat wy < ?q" unfolding wyu using q0 by simp
  have rxb: "unat (x mod q) < ?q" using q0 by (simp add: unat_mod)
  \<comment> \<open>the sum\<close>
  have "(unat (x mod q) + unat wy) mod ?q < 2 ^ 64"
    using q0 q64 by (meson mod_less_divisor less_trans)
  then have "unat (refX q W (x mod q) (y mod q)) = (unat (x mod q) + unat wy) mod ?q"
    unfolding refX_def AddUIntMod_def wy_def [symmetric] by (simp add: unat_of_nat)
  also have "\<dots> = (unat x + unat W * unat y) mod ?q"
  proof (rule mod_add_cong)
    show "unat (x mod q) mod ?q = unat x mod ?q" by (simp add: unat_mod)
    show "unat wy mod ?q = (unat W * unat y) mod ?q" by (rule wyc)
  qed
  also have "\<dots> = unat (fwdX q tw W Wp x y) mod ?q"
    using fwd_values(3) [OF q0 q62 tw W Wp x] by simp
  finally show "refX q W (x mod q) (y mod q) = fwdX q tw W Wp x y mod q"
    by (simp only: word_unat_eq_iff unat_mod)
  \<comment> \<open>the difference\<close>
  define d where "d = x mod q + q - wy"
  have u1: "unat (x mod q + q) = unat (x mod q) + ?q"
    using rxb q62 by (intro unat_add_lem [THEN iffD1]) simp
  have "wy \<le> x mod q + q" using wyb u1 by (simp add: word_le_nat_alt)
  then have ud: "unat d = unat (x mod q) + ?q - unat wy"
    unfolding d_def using u1 by (simp add: unat_sub)
  have db: "unat d < 2 * ?q" unfolding ud using rxb by simp
  have "unat (refY q W (x mod q) (y mod q)) = unat (if q \<le> d then d - q else d)"
    unfolding refY_def SubUIntMod_def wy_def [symmetric] d_def by (simp add: Let_def)
  also have "\<dots> = unat d mod ?q"
    unfolding csub_unat using db by (simp add: csub_mod_nat)
  finally have r: "unat (refY q W (x mod q) (y mod q)) = unat d mod ?q" .
  have "(unat d + unat W * unat y) mod ?q = (unat d + unat wy) mod ?q"
    using wyc by (intro mod_add_cong) simp_all
  also have "unat d + unat wy = unat (x mod q) + ?q" unfolding ud using wyb by simp
  also have "(unat (x mod q) + ?q) mod ?q = unat x mod ?q" by (simp add: unat_mod)
  finally have "(unat d + unat W * unat y) mod ?q
      = (unat (fwdY q tw W Wp x y) + unat W * unat y) mod ?q"
    using fwd_values(4) [OF q0 q62 tw W Wp x] by simp
  then have "unat d mod ?q = unat (fwdY q tw W Wp x y) mod ?q"
    by (rule mod_add_cancel_nat)
  then show "refY q W (x mod q) (y mod q) = fwdY q tw W Wp x y mod q"
    using r by (simp only: word_unat_eq_iff unat_mod)
qed

lemma ref_level_sim:
  assumes q0: "0 < unat q" and q62: "unat q < 2 ^ 62" and tw: "unat tw = 2 * unat q"
    and tab: "\<forall>b<m. roots ! (m + b) < q
                \<and> unat (precon ! (m + b)) = (unat (roots ! (m + b)) * 2 ^ 64) div unat q"
    and t: "0 < t" and len: "length es = 2 * t * m"
    and inv: "in4q q es"
  shows "ref_level q roots m t (map (\<lambda>x. x mod q) es)
       = map (\<lambda>x. x mod q) (fwd_level q tw roots precon m t es)"
proof (rule nth_equalityI)
  show "length (ref_level q roots m t (map (\<lambda>x. x mod q) es))
      = length (map (\<lambda>x. x mod q) (fwd_level q tw roots precon m t es))" by simp
next
  fix p assume "p < length (ref_level q roots m t (map (\<lambda>x. x mod q) es))"
  then have p: "p < length es" by simp
  let ?rs = "map (\<lambda>x. x mod q) es"
  let ?b = "p div (2 * t)"
  have lenr: "length ?rs = 2 * t * m" using len by simp
  have pr: "p < length ?rs" using p by simp
  note L = level_full_nth [OF t len p]
  note R = level_full_nth [OF t lenr pr]
  have b: "roots ! (m + ?b) < q"
    "unat (precon ! (m + ?b)) = (unat (roots ! (m + ?b)) * 2 ^ 64) div unat q"
    using tab L(2) by simp_all
  have e: "unat (es ! i) < 4 * unat q" if "i < length es" for i
    using inv that unfolding in4q_def all_set_conv_all_nth by simp
  show "ref_level q roots m t ?rs ! p = map (\<lambda>x. x mod q) (fwd_level q tw roots precon m t es) ! p"
  proof (cases "p mod (2 * t) < t")
    case True
    have pt: "p + t < length es" using L(3) True by simp
    have "ref_level q roots m t ?rs ! p = refX q (roots ! (m + ?b)) (es ! p mod q) (es ! (p + t) mod q)"
      unfolding ref_level_def R(1) using True p pt by simp
    also have "\<dots> = fwdX q tw (roots ! (m + ?b)) (precon ! (m + ?b)) (es ! p) (es ! (p + t)) mod q"
      by (rule ref_values(1) [OF q0 q62 tw b e [OF p]])
    also have "\<dots> = map (\<lambda>x. x mod q) (fwd_level q tw roots precon m t es) ! p"
      unfolding fwd_level_def using True p by (simp add: L(1))
    finally show ?thesis .
  next
    case False
    have pt: "p - t < length es" using p by simp
    have "ref_level q roots m t ?rs ! p = refY q (roots ! (m + ?b)) (es ! (p - t) mod q) (es ! p mod q)"
      unfolding ref_level_def R(1) using False p pt by simp
    also have "\<dots> = fwdY q tw (roots ! (m + ?b)) (precon ! (m + ?b)) (es ! (p - t)) (es ! p) mod q"
      by (rule ref_values(2) [OF q0 q62 tw b e [OF pt]])
    also have "\<dots> = map (\<lambda>x. x mod q) (fwd_level q tw roots precon m t es) ! p"
      unfolding fwd_level_def using False p by (simp add: L(1))
    finally show ?thesis .
  qed
qed

lemma ref_prefix_sim:
  assumes q0: "0 < unat q" and q62: "unat q < 2 ^ 62" and tw: "unat tw = 2 * unat q"
    and tab: "forward_tables_ok k q roots precon"
    and len: "length es = 2 ^ k" and inv: "in4q q es" and i: "i \<le> k"
  shows "ref_prefix q roots k i (map (\<lambda>x. x mod q) es)
       = map (\<lambda>x. x mod q) (fwd_prefix q tw roots precon k i es)"
  using i
proof (induction i)
  case 0
  then show ?case by simp
next
  case (Suc i)
  have ik: "i < k" using Suc.prems by simp
  let ?st = "fwd_prefix q tw roots precon k i es"
  have st4: "in4q q ?st"
    using fwd_prefix_in4q [OF q0 q62 tw tab len inv, of i] ik by simp
  have stl: "length ?st = 2 * 2 ^ (k - Suc i) * 2 ^ i" using pow2_split [OF ik] len by simp
  have tb: "\<forall>b<2 ^ i. roots ! (2 ^ i + b) < q
                \<and> unat (precon ! (2 ^ i + b)) = (unat (roots ! (2 ^ i + b)) * 2 ^ 64) div unat q"
    using fwd_tables_level [OF tab ik] by simp
  have "ref_prefix q roots k (Suc i) (map (\<lambda>x. x mod q) es)
      = ref_level q roots (2 ^ i) (2 ^ (k - Suc i)) (map (\<lambda>x. x mod q) ?st)"
    using Suc ik by simp
  also have "\<dots> = map (\<lambda>x. x mod q) (fwd_level q tw roots precon (2 ^ i) (2 ^ (k - Suc i)) ?st)"
    using tb stl st4 by (intro ref_level_sim [OF q0 q62 tw]) simp_all
  finally show ?case by simp
qed

lemma map_mod_id:
  assumes "\<forall>x\<in>set es. x < (q::u64)"
  shows "map (\<lambda>x. x mod q) es = es"
  using assms by (induction es) (simp_all add: word_mod_less_divisor mod_word_less)

text \<open>
  Claim C3.  For every admissible degree \<open>N = 2 ^ k\<close> and modulus \<open>q\<close> (\<open>q < 2 ^ 62\<close>,
  \<open>q mod 2N = 1\<close>; primality of \<open>q\<close> is not needed), with correctly built tables, and every
  input with all elements in \<open>[0, q)\<close>: \<^verbatim>\<open>ForwardTransformToBitReverse64\<close> and
  \<^verbatim>\<open>ReferenceForwardTransformToBitReverse\<close> both return, with the same output vector.
\<close>

theorem forward_agrees_with_reference:
  assumes k: "1 \<le> k" and deg: "unat degree = 2 ^ k"
    and q1: "1 < unat q" and q62: "unat q < 2 ^ 62"
    and qm: "unat q mod (2 * 2 ^ k) = 1"
    and tab: "forward_tables_ok k q roots precon"
    and len: "length input = 2 ^ k" and inp: "\<forall>x\<in>set input. x < q"
  shows "\<exists>out. ForwardTransformToBitReverse64 degree q roots precon input = Some (Inr out)
             \<and> ReferenceForwardTransformToBitReverse degree q roots input = Some (Inr out)"
proof -
  let ?tw = "push_bit 1 q"
  let ?out = "map (\<lambda>x. x mod q) (fwd_prefix q ?tw roots precon k k input)"
  note A = admissible_facts [OF k deg q1 q62 qm]
  have q0: "0 < unat q" using q1 by simp
  have tw: "unat ?tw = 2 * unat q" using q62 by (rule twice_mod_unat)
  have i4: "in4q q input" using inp by (rule lt_q_in4q)
  have F: "ForwardTransformToBitReverse64 degree q roots precon input = Some (Inr ?out)"
    by (rule forward_value [OF k deg q1 q62 qm tab len i4])
  have rl: "length roots = 2 ^ k" using tab by (simp add: forward_tables_ok_def)
  have "ref_loop_m q roots (2 ^ k) (2 ^ 0) (2 ^ (k - 0) div 2) (ref_prefix q roots k 0 input)
      = Some (Inr (ref_prefix q roots k k input))"
    using rl len by (intro ref_loop_m_value) simp_all
  then have "ref_loop_m q roots (unat degree) 1 (unat degree div 2) input
      = Some (Inr (ref_prefix q roots k k input))"
    unfolding deg by simp
  then have "ReferenceForwardTransformToBitReverse degree q roots input
      = Some (Inr (ref_prefix q roots k k input))"
    unfolding ReferenceForwardTransformToBitReverse_def Let_def
    by (simp only: A(2) not_True_eq_False if_False)
  moreover have "ref_prefix q roots k k input = ?out"
    using ref_prefix_sim [OF q0 q62 tw tab len i4, of k] map_mod_id [OF inp] by simp
  ultimately show ?thesis using F by simp
qed

theorem forward_agrees_with_reference_witness:
  "forward_tables_ok 3 17 [1, 13, 9, 15, 3, 5, 10, 11]
     [1085102592571150095, 14106333703424951235, 9765923333140350855, 16276538888567251425,
      3255307777713450285, 5425512962855750475, 10851025925711500950, 11936128518282651045]
   \<and> unat (8::u64) = 2 ^ 3 \<and> unat (17::u64) mod (2 * 2 ^ 3) = 1
   \<and> (\<exists>out. ForwardTransformToBitReverse64 8 17 [1, 13, 9, 15, 3, 5, 10, 11]
           [1085102592571150095, 14106333703424951235, 9765923333140350855, 16276538888567251425,
      3255307777713450285, 5425512962855750475, 10851025925711500950, 11936128518282651045]
           [1, 2, 3, 4, 5, 6, 7, 8] = Some (Inr out)
         \<and> ReferenceForwardTransformToBitReverse 8 17 [1, 13, 9, 15, 3, 5, 10, 11]
             [1, 2, 3, 4, 5, 6, 7, 8] = Some (Inr out))"
proof -
  have t: "forward_tables_ok 3 17 [1, 13, 9, 15, 3, 5, 10, 11]
     [1085102592571150095, 14106333703424951235, 9765923333140350855, 16276538888567251425,
      3255307777713450285, 5425512962855750475, 10851025925711500950, 11936128518282651045]"
    by (simp add: forward_tables_ok_def atLeastLessThan_upt upt_conv_Cons)
  from forward_agrees_with_reference [of 3 8 17 "[1, 13, 9, 15, 3, 5, 10, 11]"
     "[1085102592571150095, 14106333703424951235, 9765923333140350855, 16276538888567251425,
      3255307777713450285, 5425512962855750475, 10851025925711500950, 11936128518282651045]"
     "[1, 2, 3, 4, 5, 6, 7, 8]", OF _ _ _ _ _ t]
  show ?thesis using t by simp
qed

lemma length_inv_level [simp]: "length (inv_level q tw inv_roots m t idx zs) = length zs"
  by (simp add: inv_level_def)

lemma length_inv_suffix [simp]: "length (inv_suffix q tw inv_roots k a zs) = length zs"
  by (induction a arbitrary: zs) simp_all

lemma length_inv_final [simp]: "length (inv_final q tw inv_n inv_n_w t zs) = length zs"
  by (simp add: inv_final_def)

lemma MultiplyModLazy3_value:
  assumes "W < q"
  shows "MultiplyModLazy3 64 v W q = Inr (lazy64 q W v)"
proof -
  have q0: "0 < unat q" and Wq: "unat W < unat q"
    using assms by (simp_all add: word_less_nat_alt) 
  from MultiplyFactor_new_64 [OF q0 Wq] obtain bf
    where mf: "MultiplyFactor_new W 64 q = Inr \<lparr>m_operand = W, m_barrett_factor = bf\<rparr>"
      and bf: "unat bf = (unat W * 2 ^ 64) div unat q" by blast
  have "bf = word_of_nat (unat bf)" by simp
  then have b: "bf = barrett64 q W" unfolding bf barrett64_def .
  show ?thesis
    using assms
    by (simp add: MultiplyModLazy3_def MaximumValue_def mf BarrettFactor_def b
        MultiplyModLazy_64_value lazy64_def)
qed

lemma inv_butterfly_value:
  assumes "X < length zs" "Y < length zs" "W < q"
  shows "inv_butterfly q tw W X Y zs
     = Inr (zs[X := invX tw (zs ! X) (zs ! Y), Y := invY q tw W (zs ! X) (zs ! Y)])"
  using assms
  by (simp add: inv_butterfly_def load_def store_def MultiplyModLazy3_value invX_def invY_def
      Let_def)

lemma inv_loop_j_value:
  assumes "W < q" "j + t + c \<le> length zs"
  shows "inv_loop_j q tw W j (j + c) j (j + t) zs
     = Inr (inner_gen (invX tw) (invY q tw W) t j c zs)"
  using assms
proof (induction c arbitrary: j zs)
  case 0
  then show ?case by (simp add: inv_loop_j.simps)
next
  case (Suc c)
  let ?zs1 = "zs[j := invX tw (zs ! j) (zs ! (j + t)), j + t := invY q tw W (zs ! j) (zs ! (j + t))]"
  have b: "inv_butterfly q tw W j (j + t) zs = Inr ?zs1"
    using Suc.prems by (intro inv_butterfly_value) simp_all
  have "inv_loop_j q tw W j (j + Suc c) j (j + t) zs
      = inv_loop_j q tw W (Suc j) (Suc j + c) (Suc j) (Suc j + t) ?zs1"
    by (subst inv_loop_j.simps) (simp add: b)
  also have "\<dots> = Inr (inner_gen (invX tw) (invY q tw W) t (Suc j) c ?zs1)"
    using Suc.prems by (intro Suc.IH) simp_all
  finally show ?case by simp
qed

lemma inv_loop_i_value:
  assumes "i + c = m"
    and "\<forall>b<m. idx + b < length inv_roots \<and> inv_roots ! (idx + b) < q"
    and "2 * t * m \<le> length zs"
  shows "inv_loop_i q tw inv_roots m t i (idx + i) (2 * t * i) zs
     = Inr (idx + m, level_gen (\<lambda>b. invX tw) (\<lambda>b. invY q tw (inv_roots ! (idx + b))) t i c zs)"
  using assms
proof (induction c arbitrary: i zs)
  case 0
  then show ?case by (simp add: inv_loop_i.simps)
next
  case (Suc c)
  let ?W = "inv_roots ! (idx + i)"
  let ?zs1 = "inner_gen (invX tw) (invY q tw ?W) t (2 * t * i) t zs"
  have im: "i < m" using Suc.prems(1) by simp
  have tab: "idx + i < length inv_roots" "?W < q" using Suc.prems(2) im by simp_all
  have "2 * t * Suc i \<le> 2 * t * m" using im by (intro mult_le_mono2) simp
  then have bnd: "2 * t * i + t + t \<le> length zs" using Suc.prems(3) by simp
  have j: "inv_loop_j q tw ?W (2 * t * i) (2 * t * i + t) (2 * t * i) (2 * t * i + t) zs = Inr ?zs1"
    using tab(2) bnd by (intro inv_loop_j_value) simp_all
  have l: "load inv_roots (idx + i) = Inr ?W" using tab by (simp add: load_def)
  have nx: "i + 1 = Suc i" "2 * t * i + 2 * t = 2 * t * Suc i" "idx + i + 1 = idx + Suc i"
    by simp_all
  have "inv_loop_i q tw inv_roots m t i (idx + i) (2 * t * i) zs
      = inv_loop_i q tw inv_roots m t (i + 1) (idx + i + 1) (2 * t * i + 2 * t) ?zs1"
    by (subst inv_loop_i.simps) (simp only: im if_True Let_def l j sum.case)
  also have "\<dots> = inv_loop_i q tw inv_roots m t (Suc i) (idx + Suc i) (2 * t * Suc i) ?zs1"
    by (simp only: nx)
  also have "\<dots> = Inr (idx + m, level_gen (\<lambda>b. invX tw) (\<lambda>b. invY q tw (inv_roots ! (idx + b)))
                        t (Suc i) c ?zs1)"
    using Suc.prems by (intro Suc.IH) simp_all
  finally show ?case by simp
qed

lemma inv_level_value:
  assumes "\<forall>b<m. idx + b < length inv_roots \<and> inv_roots ! (idx + b) < q"
    and "2 * t * m \<le> length zs"
  shows "inv_loop_i q tw inv_roots m t 0 idx 0 zs
     = Inr (idx + m, inv_level q tw inv_roots m t idx zs)"
  using inv_loop_i_value [of 0 m m idx inv_roots q t zs tw] assms by (simp add: inv_level_def)

lemma inv_tables_level:
  assumes "inverse_tables_ok k q roots inv_roots" "a < k"
  shows "\<forall>b<2 ^ a. 2 ^ k - 2 ^ Suc a + 1 + b < length inv_roots
            \<and> inv_roots ! (2 ^ k - 2 ^ Suc a + 1 + b) < q
            \<and> (unat (inv_roots ! (2 ^ k - 2 ^ Suc a + 1 + b)) * unat (roots ! (2 ^ a + b)))
                  mod unat q = 1"
proof (intro allI impI)
  fix b :: nat assume b: "b < 2 ^ a"
  have le: "(2::nat) ^ Suc a \<le> 2 ^ k" using assms(2) by (intro power_increasing) simp_all
  have "2 ^ k - 2 ^ Suc a + 1 + b < 2 ^ k" using le b by simp
  moreover have "a \<in> {0..<k}" "b \<in> {0..<2 ^ a}" using assms(2) b by simp_all
  ultimately show "2 ^ k - 2 ^ Suc a + 1 + b < length inv_roots
            \<and> inv_roots ! (2 ^ k - 2 ^ Suc a + 1 + b) < q
            \<and> (unat (inv_roots ! (2 ^ k - 2 ^ Suc a + 1 + b)) * unat (roots ! (2 ^ a + b)))
                  mod unat q = 1"
    using assms(1) unfolding inverse_tables_ok_def by auto
qed

lemma inv_loop_m_value:
  assumes tab: "inverse_tables_ok k q roots inv_roots"
    and len: "length zs = 2 ^ k" and a: "a < k"
  shows "inv_loop_m q tw inv_roots (2 ^ a) (2 ^ (k - Suc a)) (2 ^ k - 2 ^ Suc a + 1) zs
       = Inr (2 ^ k - 1, inv_suffix q tw inv_roots k a zs)"
  using len a
proof (induction a arbitrary: zs)
  case 0
  have "(2::nat) ^ 1 \<le> 2 ^ k" using 0 by (intro power_increasing) simp_all
  then have "(2::nat) ^ k - 2 ^ Suc 0 + 1 = 2 ^ k - 1" by simp
  then show ?case by (subst inv_loop_m.simps) simp
next
  case (Suc a)
  let ?m = "(2::nat) ^ Suc a" and ?t = "(2::nat) ^ (k - Suc (Suc a))"
  let ?idx = "(2::nat) ^ k - 2 ^ Suc (Suc a) + 1"
  let ?zs1 = "inv_level q tw inv_roots ?m ?t ?idx zs"
  have ak: "Suc a < k" using Suc.prems by simp
  have "(2::nat) ^ 0 < 2 ^ Suc a" by (intro power_strict_increasing) simp_all
  then have gt: "?m > 1" by (simp only: power_0)
  have le: "(2::nat) ^ Suc (Suc a) \<le> 2 ^ k" using ak by (intro power_increasing) simp_all
  have tb: "\<forall>b<?m. ?idx + b < length inv_roots \<and> inv_roots ! (?idx + b) < q"
    using inv_tables_level [OF tab ak] by simp
  have lv: "inv_loop_i q tw inv_roots ?m ?t 0 ?idx 0 zs = Inr (?idx + ?m, ?zs1)"
    using tb pow2_split [OF ak] Suc.prems(1) by (intro inv_level_value) simp_all
  have nx: "?m div 2 = 2 ^ a" "2 * ?t = 2 ^ (k - Suc a)" "?idx + ?m = 2 ^ k - 2 ^ Suc a + 1"
  proof -
    show "?m div 2 = 2 ^ a" by simp
    have "k - Suc a = Suc (k - Suc (Suc a))" using ak by simp
    then show "2 * ?t = 2 ^ (k - Suc a)" by simp
    have "(2::nat) ^ Suc (Suc a) = 2 ^ Suc a + 2 ^ Suc a" by simp
    then show "?idx + ?m = 2 ^ k - 2 ^ Suc a + 1" using le by linarith
  qed
  have "inv_loop_m q tw inv_roots ?m ?t ?idx zs
      = inv_loop_m q tw inv_roots (?m div 2) (2 * ?t) (?idx + ?m) ?zs1"
    by (subst inv_loop_m.simps) (simp only: gt if_True lv sum.case prod.case)
  also have "\<dots> = inv_loop_m q tw inv_roots (2 ^ a) (2 ^ (k - Suc a)) (2 ^ k - 2 ^ Suc a + 1) ?zs1"
    by (simp only: nx)
  also have "\<dots> = Inr (2 ^ k - 1, inv_suffix q tw inv_roots k a ?zs1)"
    using Suc.prems by (intro Suc.IH) simp_all
  finally show ?case by simp
qed

lemma inv_final_butterfly_value:
  assumes "X < length zs" "Y < length zs" "inv_n < q" "inv_n_w < q"
  shows "inv_final_butterfly q tw inv_n inv_n_w X Y zs
     = Inr (zs[X := finX q tw inv_n (zs ! X) (zs ! Y), Y := invY q tw inv_n_w (zs ! X) (zs ! Y)])"
  using assms
  by (simp add: inv_final_butterfly_def load_def store_def MultiplyModLazy3_value finX_def
      invX_def invY_def Let_def)

lemma inv_final_loop_value:
  assumes "inv_n < q" "inv_n_w < q" "X + t + c \<le> length zs"
  shows "inv_final_loop q tw inv_n inv_n_w j (j + c) X (X + t) zs
     = Inr (inner_gen (finX q tw inv_n) (invY q tw inv_n_w) t X c zs)"
  using assms(3)
proof (induction c arbitrary: j X zs)
  case 0
  then show ?case by (simp add: inv_final_loop.simps)
next
  case (Suc c)
  let ?zs1 = "zs[X := finX q tw inv_n (zs ! X) (zs ! (X + t)),
                 X + t := invY q tw inv_n_w (zs ! X) (zs ! (X + t))]"
  have b: "inv_final_butterfly q tw inv_n inv_n_w X (X + t) zs = Inr ?zs1"
    using Suc.prems assms(1,2) by (intro inv_final_butterfly_value) simp_all
  have "inv_final_loop q tw inv_n inv_n_w j (j + Suc c) X (X + t) zs
      = inv_final_loop q tw inv_n inv_n_w (Suc j) (Suc j + c) (Suc X) (Suc X + t) ?zs1"
    by (subst inv_final_loop.simps) (simp add: b)
  also have "\<dots> = Inr (inner_gen (finX q tw inv_n) (invY q tw inv_n_w) t (Suc X) c ?zs1)"
    using Suc.prems by (intro Suc.IH) simp_all
  finally show ?case by simp
qed

lemma inv_final_value:
  assumes "inv_n < q" "inv_n_w < q" "2 * t \<le> length zs"
  shows "inv_final_loop q tw inv_n inv_n_w t (2 * t) 0 t zs
     = Inr (inv_final q tw inv_n inv_n_w t zs)"
  using inv_final_loop_value [OF assms(1,2), of 0 t t zs tw t] assms(3)
  by (simp add: inv_final_def mult_2)

text \<open>
  The tables that the spec's construction yields satisfy the two predicates on tables, for
  every modulus \<open>q > 1\<close> and every \<open>w\<close> with an inverse modulo \<open>q\<close>.
\<close>

lemma concat_levels_length:
  fixes f :: "nat \<Rightarrow> 'a list"
  assumes "\<forall>a<k. length (f a) = 2 ^ a"
  shows "length (concat (map f (rev [0..<k]))) = 2 ^ k - 1"
  using assms
proof (induction k)
  case 0
  then show ?case by simp
next
  case (Suc k)
  have "length (concat (map f (rev [0..<k]))) = 2 ^ k - 1" using Suc by simp
  moreover have "length (f k) = 2 ^ k" using Suc.prems by simp
  moreover have "(1::nat) \<le> 2 ^ k" by simp
  ultimately show ?case by simp
qed

lemma concat_levels_nth:
  fixes f :: "nat \<Rightarrow> 'a list"
  assumes "\<forall>a<k. length (f a) = 2 ^ a" and "a < k" and "b < 2 ^ a"
  shows "concat (map f (rev [0..<k])) ! (2 ^ k - 2 ^ Suc a + b) = f a ! b"
  using assms
proof (induction k)
  case 0
  then show ?case by simp
next
  case (Suc k)
  have lk: "length (f k) = 2 ^ k" using Suc.prems(1) by simp
  have c: "concat (map f (rev [0..<Suc k])) = f k @ concat (map f (rev [0..<k]))" by simp
  show ?case
  proof (cases "a = k")
    case True
    then have "(2::nat) ^ Suc k - 2 ^ Suc a + b = b" by simp
    then show ?thesis unfolding c using True Suc.prems(3) lk by (simp add: nth_append)
  next
    case False
    then have ak: "a < k" using Suc.prems(2) by simp
    have le: "(2::nat) ^ Suc a \<le> 2 ^ k" using ak by (intro power_increasing) simp_all
    have i1: "\<not> (2::nat) ^ Suc k - 2 ^ Suc a + b < 2 ^ k" using le by simp
    have i2: "(2::nat) ^ Suc k - 2 ^ Suc a + b - 2 ^ k = 2 ^ k - 2 ^ Suc a + b" using le by simp
    have "concat (map f (rev [0..<k])) ! (2 ^ k - 2 ^ Suc a + b) = f a ! b"
      using Suc.prems ak by (intro Suc.IH) simp_all
    then show ?thesis unfolding c using i1 i2 lk by (simp only: nth_append if_False)
  qed
qed

lemma built_tables_ok:
  assumes q1: "1 < q" and q64: "q < 2 ^ 64" and inv: "(w_inv * w) mod q = 1"
  shows "forward_tables_ok k (word_of_nat q) (root_table q k w) (precon_table q (root_table q k w))"
    and "inverse_tables_ok k (word_of_nat q) (root_table q k w) (inv_root_table q k w_inv)"
proof -
  let ?q = "word_of_nat q :: u64"
  have uq: "unat ?q = q" using q64 by (simp add: unat_of_nat)
  have red: "unat (word_of_nat (x mod q) :: u64) = x mod q" for x
  proof -
    have "x mod q < q" using q1 by simp
    then have "x mod q < 2 ^ 64" using q64 by simp
    then show ?thesis by (simp add: unat_of_nat)
  qed
  have redlt: "(word_of_nat (x mod q) :: u64) < ?q" for x
    unfolding word_less_nat_alt red uq using q1 by simp
  have rn: "root_table q k w ! j = word_of_nat (w ^ ReverseBits j k mod q)" if "j < 2 ^ k" for j
    using that unfolding root_table_def by simp
  have rl: "length (root_table q k w) = 2 ^ k" by (simp add: root_table_def)
  show "forward_tables_ok k ?q (root_table q k w) (precon_table q (root_table q k w))"
    unfolding forward_tables_ok_def
  proof (intro conjI ballI)
    show "length (root_table q k w) = 2 ^ k" by (rule rl)
    show "length (precon_table q (root_table q k w)) = 2 ^ k" by (simp add: precon_table_def rl)
    fix j :: nat assume "j \<in> {1..<2 ^ k}"
    then have j: "j < 2 ^ k" by simp
    show lt: "root_table q k w ! j < ?q" unfolding rn [OF j] by (rule redlt)
    have "unat (root_table q k w ! j) < q" using lt uq by (simp add: word_less_nat_alt)
    then have "unat (root_table q k w ! j) * 2 ^ 64 < q * 2 ^ 64" by simp
    then have "(unat (root_table q k w ! j) * 2 ^ 64) div q < 2 ^ 64"
      using q1 by (simp add: less_mult_imp_div_less mult.commute)
    then show "unat (precon_table q (root_table q k w) ! j)
        = (unat (root_table q k w ! j) * 2 ^ 64) div unat ?q"
      unfolding precon_table_def uq using j rl by (simp add: unat_of_nat)
  qed
  have ll: "\<forall>a<k. length (inv_root_level q k w_inv a) = 2 ^ a"
    by (simp add: inv_root_level_def)
  have ent: "inv_root_table q k w_inv ! (2 ^ k - 2 ^ Suc a + 1 + b)
      = word_of_nat (w_inv ^ ReverseBits (2 ^ a + b) k mod q)" if "a < k" "b < 2 ^ a" for a b
  proof -
    have "inv_root_table q k w_inv ! (2 ^ k - 2 ^ Suc a + 1 + b)
        = concat (map (inv_root_level q k w_inv) (rev [0..<k])) ! (2 ^ k - 2 ^ Suc a + b)"
      unfolding inv_root_table_def by simp
    also have "\<dots> = inv_root_level q k w_inv a ! b"
      using ll that by (rule concat_levels_nth)
    also have "\<dots> = word_of_nat (w_inv ^ ReverseBits (2 ^ a + b) k mod q)"
      unfolding inv_root_level_def using that by simp
    finally show ?thesis .
  qed
  show "inverse_tables_ok k ?q (root_table q k w) (inv_root_table q k w_inv)"
    unfolding inverse_tables_ok_def
  proof (intro conjI ballI)
    have "(1::nat) \<le> 2 ^ k" by simp
    then show "length (inv_root_table q k w_inv) = 2 ^ k"
      unfolding inv_root_table_def using concat_levels_length [OF ll] by simp
    fix a b :: nat assume "a \<in> {0..<k}" "b \<in> {0..<2 ^ a}"
    then have a: "a < k" and b: "b < 2 ^ a" by simp_all
    have "(2::nat) ^ Suc a \<le> 2 ^ k" using a by (intro power_increasing) simp_all
    then have j: "2 ^ a + b < 2 ^ k" using b by simp
    let ?e = "ReverseBits (2 ^ a + b) k"
    show "inv_root_table q k w_inv ! (2 ^ k - 2 ^ Suc a + 1 + b) < ?q"
      unfolding ent [OF a b] by (rule redlt)
    have "(w_inv ^ ?e mod q) * (w ^ ?e mod q) mod q = (w_inv ^ ?e * w ^ ?e) mod q"
      by (simp only: mod_mult_eq)
    also have "w_inv ^ ?e * w ^ ?e = (w_inv * w) ^ ?e" by (simp only: power_mult_distrib)
    also have "(w_inv * w) ^ ?e mod q = ((w_inv * w) mod q) ^ ?e mod q"
      by (simp only: power_mod)
    also have "\<dots> = 1" unfolding inv using q1 by simp
    finally show "unat (inv_root_table q k w_inv ! (2 ^ k - 2 ^ Suc a + 1 + b))
        * unat (root_table q k w ! (2 ^ a + b)) mod unat ?q = 1"
      unfolding ent [OF a b] rn [OF j] red uq .
  qed
qed

text \<open>The tables of the example \<open>N = 8\<close>, \<open>q = 17\<close>, \<open>\<omega> = 3\<close>, \<open>\<omega>\<^sup>-\<^sup>1 = 6\<close>.\<close>

lemma ReverseBits_3:
  "ReverseBits x 3 = 4 * (x mod 2) + (2 * (x div 2 mod 2) + x div 2 div 2 mod 2)"
proof -
  have "ReverseBits x (Suc (Suc (Suc 0)))
      = 4 * (x mod 2) + (2 * (x div 2 mod 2) + x div 2 div 2 mod 2)"
    by simp
  then show ?thesis by (simp only: numeral_3_eq_3)
qed

lemma upt_8: "[0..<8] = [0, 1, 2, 3, 4, 5, 6, 7 :: nat]"
  by code_simp

lemma rev_upt_3: "rev [0..<3] = [2, 1, 0 :: nat]"
  by code_simp

lemma example_root_table: "root_table 17 3 3 = [1, 13, 9, 15, 3, 5, 10, 11]"
proof -
  have "(2::nat) ^ 3 = 8" by simp
  then show ?thesis unfolding root_table_def ReverseBits_3 by (simp add: upt_8)
qed

lemma example_inv_root_table: "inv_root_table 17 3 6 = [1, 6, 7, 12, 14, 2, 8, 4]"
proof -
  have l: "[0..<4] = [0, 1, 2, 3 :: nat]" "[0..<2] = [0, 1 :: nat]"
    by code_simp+
  show ?thesis unfolding inv_root_table_def rev_upt_3 inv_root_level_def ReverseBits_3
    by (simp add: l)
qed

lemma example_precon_table:
  "precon_table 17 [1, 13, 9, 15, 3, 5, 10, 11] =
     [1085102592571150095, 14106333703424951235, 9765923333140350855,
      16276538888567251425, 3255307777713450285, 5425512962855750475,
      10851025925711500950, 11936128518282651045]"
  unfolding precon_table_def by simp

lemma modeq_iff_dvd:
  fixes a b q :: nat
  shows "a mod q = b mod q \<longleftrightarrow> int q dvd (int a - int b)"
proof -
  have "a mod q = b mod q \<longleftrightarrow> int (a mod q) = int (b mod q)" by simp
  also have "\<dots> \<longleftrightarrow> int a mod int q = int b mod int q" by (simp add: zmod_int)
  also have "\<dots> \<longleftrightarrow> int q dvd (int a - int b)" by (rule mod_eq_dvd_iff)
  finally show ?thesis .
qed

lemma undo_int_X:
  fixes q :: int
  assumes "q dvd (A - (u + W * v))" "q dvd (B + W * v - u)"
    and "q dvd (z1 - c * A)" "q dvd (z2 - c * B)"
    and "q dvd (X - al * (z1 + z2))"
  shows "q dvd (X - 2 * al * c * u)"
  using assms by algebra

lemma undo_int_Y:
  fixes q :: int
  assumes "q dvd (A - (u + W * v))" "q dvd (B + W * v - u)"
    and "q dvd (z1 - c * A)" "q dvd (z2 - c * B)"
    and "q dvd (Y + be * z2 - be * z1)"
  shows "q dvd (Y - 2 * be * W * c * v)"
  using assms by algebra

lemma undo_nat:
  fixes q A B u v W c z1 z2 al be X Y :: nat
  assumes F1: "A mod q = (u + W * v) mod q" and F2: "(B + W * v) mod q = u mod q"
    and H1: "z1 mod q = (c * A) mod q" and H2: "z2 mod q = (c * B) mod q"
  shows "X mod q = (al * (z1 + z2)) mod q \<Longrightarrow> X mod q = (2 * al * c * u) mod q"
    and "(Y + be * z2) mod q = (be * z1) mod q \<Longrightarrow> Y mod q = (2 * be * W * c * v) mod q"
proof -
  have f1: "int q dvd (int A - (int u + int W * int v))"
    using F1 unfolding modeq_iff_dvd by simp
  have f2: "int q dvd (int B + int W * int v - int u)"
    using F2 unfolding modeq_iff_dvd by simp
  have h1: "int q dvd (int z1 - int c * int A)"
    using H1 unfolding modeq_iff_dvd by simp
  have h2: "int q dvd (int z2 - int c * int B)"
    using H2 unfolding modeq_iff_dvd by simp
  show "X mod q = (2 * al * c * u) mod q" if "X mod q = (al * (z1 + z2)) mod q"
  proof -
    have "int q dvd (int X - int al * (int z1 + int z2))"
      using that unfolding modeq_iff_dvd by simp
    from undo_int_X [OF f1 f2 h1 h2 this]
    show ?thesis unfolding modeq_iff_dvd by simp
  qed
  show "Y mod q = (2 * be * W * c * v) mod q" if "(Y + be * z2) mod q = (be * z1) mod q"
  proof -
    have "int q dvd (int Y + int be * int z2 - int be * int z1)"
      using that unfolding modeq_iff_dvd by simp
    from undo_int_Y [OF f1 f2 h1 h2 this]
    show ?thesis unfolding modeq_iff_dvd by simp
  qed
qed

lemma partner_up:
  fixes p t :: nat
  assumes "p mod (2 * t) < t"
  shows "(p + t) mod (2 * t) = p mod (2 * t) + t" and "(p + t) div (2 * t) = p div (2 * t)"
proof -
  define d where "d = p div (2 * t)"
  define r where "r = p mod (2 * t)"
  have t0: "0 < t" using assms by simp
  have p: "p = d * (2 * t) + r" unfolding d_def r_def by (rule div_mult_mod_eq [symmetric])
  have rt: "r + t < 2 * t" using assms unfolding r_def by simp
  have e: "p + t = d * (2 * t) + (r + t)" using p by simp
  show "(p + t) mod (2 * t) = p mod (2 * t) + t"
    unfolding e using rt by (simp add: r_def)
  show "(p + t) div (2 * t) = p div (2 * t)"
    unfolding e using rt t0 by (simp add: d_def)
qed

lemma partner_down:
  fixes p t :: nat
  assumes "\<not> p mod (2 * t) < t" "0 < t"
  shows "(p - t) mod (2 * t) = p mod (2 * t) - t" and "(p - t) div (2 * t) = p div (2 * t)"
    and "p - t + t = p" and "(p - t) mod (2 * t) < t"
proof -
  define d where "d = p div (2 * t)"
  define r where "r = p mod (2 * t)"
  have p: "p = d * (2 * t) + r" unfolding d_def r_def by (rule div_mult_mod_eq [symmetric])
  have r: "t \<le> r" "r < 2 * t" using assms unfolding r_def by simp_all
  have e: "p - t = d * (2 * t) + (r - t)" using p r by simp
  have rt: "r - t < 2 * t" using r by simp
  show m: "(p - t) mod (2 * t) = p mod (2 * t) - t"
    unfolding e using rt by (simp add: r_def)
  show "(p - t) div (2 * t) = p div (2 * t)"
    unfolding e using rt assms(2) by (simp add: d_def)
  show "p - t + t = p" using p r by simp
  show "(p - t) mod (2 * t) < t" unfolding m using r unfolding r_def by simp
qed

lemma barrett64_unat:
  assumes "W < q"
  shows "unat (barrett64 q W) = (unat W * 2 ^ 64) div unat q"
proof -
  have q0: "0 < unat q" and Wq: "unat W < unat q"
    using assms by (simp_all add: word_less_nat_alt)
  have "unat W * 2 ^ 64 < unat q * 2 ^ 64" using Wq by simp
  then have "(unat W * 2 ^ 64) div unat q < 2 ^ 64"
    using q0 by (simp add: less_mult_imp_div_less mult.commute)
  then show ?thesis unfolding barrett64_def by (simp add: unat_of_nat)
qed

lemma lazy64_values:
  assumes q62: "unat q < 2 ^ 62" and W: "W < q"
  shows "unat (lazy64 q W v) < 2 * unat q"
    and "unat (lazy64 q W v) mod unat q = (unat W * unat v) mod unat q"
proof -
  have q0: "0 < unat q" using W by (simp add: word_less_nat_alt)
  have q2: "2 * unat q \<le> 2 ^ 64" using q62 by simp
  have vb: "unat v \<le> 2 ^ 64" using unat_lt64 [of v] by simp
  note bf = barrett64_unat [OF W]
  show "unat (lazy64 q W v) < 2 * unat q"
    unfolding lazy64_def by (rule lazy_core(1) [OF q0 q2 vb bf])
  show "unat (lazy64 q W v) mod unat q = (unat W * unat v) mod unat q"
    unfolding lazy64_def using lazy_core(2) [OF q0 q2 vb bf] by (simp add: mult.commute)
qed

lemma inv_values:
  assumes q0: "0 < unat q" and q62: "unat q < 2 ^ 62" and tw: "unat tw = 2 * unat q"
    and x: "unat x < 2 * unat q" and y: "unat y < 2 * unat q"
  shows "unat (invX tw x y) < 2 * unat q"
    and "unat (invX tw x y) mod unat q = (unat x + unat y) mod unat q"
    and "W < q \<Longrightarrow> unat (invY q tw W x y) < 2 * unat q"
    and "W < q \<Longrightarrow>
           (unat (invY q tw W x y) + unat W * unat y) mod unat q = (unat W * unat x) mod unat q"
proof -
  have us: "unat (x + y) = unat x + unat y"
    using x y q62 by (intro unat_add_lem [THEN iffD1]) simp
  have s4: "unat (x + y) < 4 * unat q" unfolding us using x y by simp
  have X: "invX tw x y = (if tw \<le> x + y then x + y - tw else x + y)"
    unfolding invX_def by (rule mask_csub)
  show "unat (invX tw x y) < 2 * unat q" unfolding X by (rule csub2_unat(1) [OF tw s4])
  show "unat (invX tw x y) mod unat q = (unat x + unat y) mod unat q"
    unfolding X using csub2_unat(2) [OF tw s4] us by simp
  have ut: "unat (x + tw) = unat x + 2 * unat q"
    using x q62 tw by (simp add: unat_add_lem [THEN iffD1])
  have "y \<le> x + tw" using y ut by (simp add: word_le_nat_alt)
  then have uy: "unat (x + tw - y) = unat x + 2 * unat q - unat y"
    using ut by (simp add: unat_sub)
  show "unat (invY q tw W x y) < 2 * unat q" if "W < q"
    unfolding invY_def by (rule lazy64_values(1) [OF q62 that])
  show "(unat (invY q tw W x y) + unat W * unat y) mod unat q = (unat W * unat x) mod unat q"
    if "W < q"
  proof -
    have "(unat (invY q tw W x y) + unat W * unat y) mod unat q
        = (unat W * unat (x + tw - y) + unat W * unat y) mod unat q"
      unfolding invY_def using lazy64_values(2) [OF q62 that, of "x + tw - y"]
      by (intro mod_add_cong) simp_all
    also have "unat W * unat (x + tw - y) + unat W * unat y
        = unat W * unat x + (2 * unat W) * unat q"
    proof -
      have "unat (x + tw - y) + unat y = unat x + 2 * unat q" unfolding uy using y by simp
      then have "unat W * (unat (x + tw - y) + unat y) = unat W * (unat x + 2 * unat q)"
        by simp
      then show ?thesis by (simp only: distrib_left mult.assoc mult.left_commute)
    qed
    also have "(unat W * unat x + (2 * unat W) * unat q) mod unat q = (unat W * unat x) mod unat q"
      by (rule mod_mult_self1)
    finally show ?thesis .
  qed
qed

lemma finX_values:
  assumes q0: "0 < unat q" and q62: "unat q < 2 ^ 62" and tw: "unat tw = 2 * unat q"
    and x: "unat x < 2 * unat q" and y: "unat y < 2 * unat q" and n: "inv_n < q"
  shows "unat (finX q tw inv_n x y) < 2 * unat q"
    and "unat (finX q tw inv_n x y) mod unat q = (unat inv_n * (unat x + unat y)) mod unat q"
proof -
  show "unat (finX q tw inv_n x y) < 2 * unat q"
    unfolding finX_def by (rule lazy64_values(1) [OF q62 n])
  have "unat (finX q tw inv_n x y) mod unat q = (unat inv_n * unat (invX tw x y)) mod unat q"
    unfolding finX_def by (rule lazy64_values(2) [OF q62 n])
  also have "\<dots> = (unat inv_n * (unat x + unat y)) mod unat q"
    using inv_values(2) [OF q0 q62 tw x y] by (intro mod_mult_cong) simp_all
  finally show "unat (finX q tw inv_n x y) mod unat q
      = (unat inv_n * (unat x + unat y)) mod unat q" .
qed

lemma odd_of_mod:
  fixes q :: nat
  assumes "q mod (2 * 2 ^ k) = 1"
  shows "odd q"
proof -
  have "q mod 2 = (q mod (2 * 2 ^ k)) mod 2"
    by (simp add: mod_mod_cancel)
  then show ?thesis using assms by (simp add: odd_iff_mod_2_eq_one)
qed

lemma InverseMod_pow2:
  assumes deg: "unat (degree::u64) = 2 ^ k" and q1: "1 < unat (q::u64)"
    and qm: "unat q mod (2 * 2 ^ k) = 1"
  shows "\<exists>inv_n. InverseMod degree q = Inr inv_n \<and> inv_n < q
           \<and> (unat inv_n * 2 ^ k) mod unat q = 1"
proof -
  let ?n = "(2::nat) ^ k" and ?q = "unat q"
  define Z where "Z = int ?q"
  define x where "x = fst (bezw ?n ?q)"
  define y where "y = snd (bezw ?n ?q)"
  define r where "r = x mod Z"
  have "int 1 < int ?q" using q1 by (simp only: of_nat_less_iff)
  then have Zp: "1 < Z" unfolding Z_def by (simp only: of_nat_1)
  have "odd ?q" using qm by (rule odd_of_mod)
  then have "coprime (2::nat) ?q" by (simp add: coprime_left_2_iff_odd)
  then have "coprime ?n ?q" by (simp add: coprime_power_left_iff)
  then have g: "gcd ?n ?q = 1" by (simp add: coprime_iff_gcd_eq_1)
  have bz: "x * int ?n + y * Z = 1"
    unfolding x_def y_def Z_def using bezw_aux [of ?n ?q] g by simp
  have r0: "0 \<le> r" and rq: "r < Z" unfolding r_def using Zp by simp_all
  have "Z < 2 ^ 64" unfolding Z_def using uint_lt2p [of q] by simp
  then have "r < 2 ^ 64" using rq by simp
  then have "uint (word_of_int r :: u64) = r"
    using r0 by (simp add: uint_word_of_int take_bit_eq_mod)
  then have ur: "unat (word_of_int r :: u64) = nat r"
    by (simp add: unat_eq_nat_uint)
  have iv: "InverseMod degree q = Inr (word_of_int r)"
    unfolding InverseMod_def deg r_def x_def Z_def using g by simp
  have "nat r < ?q" using rq unfolding Z_def by (simp only: nat_less_iff [OF r0])
  then have lt: "(word_of_int r :: u64) < q"
    unfolding word_less_nat_alt ur .
  have "(r * int ?n) mod Z = (x * int ?n) mod Z"
    unfolding r_def by (simp add: mod_mult_left_eq)
  also have "x * int ?n = 1 + (- y) * Z" using bz by simp
  also have "(1 + (- y) * Z) mod Z = 1 mod Z" by (rule mod_mult_self1)
  also have "\<dots> = 1" using Zp by simp
  finally have "(r * int ?n) mod Z = 1" .
  moreover have "int ((nat r * ?n) mod ?q) = (r * int ?n) mod Z"
    unfolding Z_def using r0 by (simp add: zmod_int)
  ultimately have "(nat r * ?n) mod ?q = 1" by simp
  then show ?thesis using iv lt ur by auto
qed

lemma scale_mod:
  fixes a b c q w :: nat
  assumes "a mod q = b mod q"
  shows "(a * w) mod q = (b * w) mod q"
  using assms by (rule mod_mult_cong) simp

lemma level_undo:
  fixes FX :: "u64 \<Rightarrow> u64 \<Rightarrow> u64" and GY :: "nat \<Rightarrow> u64 \<Rightarrow> u64 \<Rightarrow> u64"
    and al :: nat and be :: "nat \<Rightarrow> nat"
  assumes q0: "0 < unat q" and q62: "unat q < 2 ^ 62" and tw: "unat tw = 2 * unat q"
    and ftab: "\<forall>b<m. roots ! (m + b) < q
                \<and> unat (precon ! (m + b)) = (unat (roots ! (m + b)) * 2 ^ 64) div unat q"
    and t: "0 < t" and len: "length es = 2 * t * m" and es4: "in4q q es"
    and sc: "scaled q c zs (fwd_level q tw roots precon m t es)"
    and FXv: "\<And>x y. unat x < 2 * unat q \<Longrightarrow> unat y < 2 * unat q \<Longrightarrow>
                unat (FX x y) < 2 * unat q
                \<and> unat (FX x y) mod unat q = (al * (unat x + unat y)) mod unat q"
    and GYv: "\<And>b x y. b < m \<Longrightarrow> unat x < 2 * unat q \<Longrightarrow> unat y < 2 * unat q \<Longrightarrow>
                unat (GY b x y) < 2 * unat q
                \<and> (unat (GY b x y) + be b * unat y) mod unat q = (be b * unat x) mod unat q"
    and cX: "(2 * al * c) mod unat q = c' mod unat q"
    and cY: "\<And>b. b < m \<Longrightarrow>
                (2 * be b * unat (roots ! (m + b)) * c) mod unat q = c' mod unat q"
  shows "scaled q c' (level_gen (\<lambda>b. FX) GY t 0 m zs) es"
  unfolding scaled_def
proof (rule conjI)
  let ?S = "fwd_level q tw roots precon m t es"
  let ?Z = "level_gen (\<lambda>b. FX) GY t 0 m zs"
  have lz: "length zs = length es" using sc unfolding scaled_def by simp
  show "length ?Z = length es" using lz by simp
  show "\<forall>p<length es. unat (?Z ! p) < 2 * unat q
      \<and> unat (?Z ! p) mod unat q = (c' * unat (es ! p)) mod unat q"
  proof (intro allI impI)
  fix p assume p: "p < length es"
  let ?b = "p div (2 * t)"
  have lenz: "length zs = 2 * t * m" using lz len by simp
  have pz: "p < length zs" using p lz by simp
  note L = level_full_nth [OF t len p]
  note Zp = level_full_nth(1) [OF t lenz pz, of "\<lambda>b. FX" GY]
  have bm: "?b < m" by (rule L(2))
  have W: "roots ! (m + ?b) < q"
    and Wp: "unat (precon ! (m + ?b)) = (unat (roots ! (m + ?b)) * 2 ^ 64) div unat q"
    using ftab bm by simp_all
  have e4: "unat (es ! i) < 4 * unat q" if "i < length es" for i
    using es4 that unfolding in4q_def all_set_conv_all_nth by simp
  have z2q: "unat (zs ! i) < 2 * unat q" if "i < length es" for i
    using sc that unfolding scaled_def by simp
  have zc: "unat (zs ! i) mod unat q = (c * unat (?S ! i)) mod unat q" if "i < length es" for i
    using sc that unfolding scaled_def by simp
  have S: "?S ! i = (if i mod (2 * t) < t
                     then fwdX q tw (roots ! (m + i div (2 * t))) (precon ! (m + i div (2 * t)))
                            (es ! i) (es ! (i + t))
                     else fwdY q tw (roots ! (m + i div (2 * t))) (precon ! (m + i div (2 * t)))
                            (es ! (i - t)) (es ! i))" if "i < length es" for i
    unfolding fwd_level_def using level_full_nth(1) [OF t len that] by simp
  show "unat (?Z ! p) < 2 * unat q
      \<and> unat (?Z ! p) mod unat q = (c' * unat (es ! p)) mod unat q"
  proof (cases "p mod (2 * t) < t")
    case True
    have pt: "p + t < length es" using L(3) True by simp
    note P = partner_up [OF True]
    let ?u = "es ! p" and ?v = "es ! (p + t)"
    let ?A = "fwdX q tw (roots ! (m + ?b)) (precon ! (m + ?b)) ?u ?v"
    let ?B = "fwdY q tw (roots ! (m + ?b)) (precon ! (m + ?b)) ?u ?v"
    have SA: "?S ! p = ?A" using S [OF p] True by simp
    have SB: "?S ! (p + t) = ?B" using S [OF pt] P by simp
    note FV = fwd_values [OF q0 q62 tw W Wp e4 [OF p], of ?v]
    have F1: "unat ?A mod unat q = (unat ?u + unat (roots ! (m + ?b)) * unat ?v) mod unat q"
      by (rule FV(3))
    have F2: "(unat ?B + unat (roots ! (m + ?b)) * unat ?v) mod unat q = unat ?u mod unat q"
      by (rule FV(4))
    have H1: "unat (zs ! p) mod unat q = (c * unat ?A) mod unat q"
      using zc [OF p] SA by simp
    have H2: "unat (zs ! (p + t)) mod unat q = (c * unat ?B) mod unat q"
      using zc [OF pt] SB by simp
    have Zv: "?Z ! p = FX (zs ! p) (zs ! (p + t))" using Zp True by simp
    note V = FXv [OF z2q [OF p] z2q [OF pt]]
    have "unat (?Z ! p) mod unat q = (2 * al * c * unat ?u) mod unat q"
      unfolding Zv using undo_nat(1) [OF F1 F2 H1 H2] V by blast
    also have "\<dots> = (c' * unat ?u) mod unat q" using cX by (rule scale_mod)
    finally show ?thesis using V unfolding Zv by simp
  next
    case False
    have tp: "t \<le> p" using L(4) False by simp
    have pt: "p - t < length es" using p by simp
    note P = partner_down [OF False t]
    let ?u = "es ! (p - t)" and ?v = "es ! p"
    let ?A = "fwdX q tw (roots ! (m + ?b)) (precon ! (m + ?b)) ?u ?v"
    let ?B = "fwdY q tw (roots ! (m + ?b)) (precon ! (m + ?b)) ?u ?v"
    have SA: "?S ! (p - t) = ?A" using S [OF pt] P by simp
    have SB: "?S ! p = ?B" using S [OF p] False by simp
    note FV = fwd_values [OF q0 q62 tw W Wp e4 [OF pt], of ?v]
    have F1: "unat ?A mod unat q = (unat ?u + unat (roots ! (m + ?b)) * unat ?v) mod unat q"
      by (rule FV(3))
    have F2: "(unat ?B + unat (roots ! (m + ?b)) * unat ?v) mod unat q = unat ?u mod unat q"
      by (rule FV(4))
    have H1: "unat (zs ! (p - t)) mod unat q = (c * unat ?A) mod unat q"
      using zc [OF pt] SA by simp
    have H2: "unat (zs ! p) mod unat q = (c * unat ?B) mod unat q"
      using zc [OF p] SB by simp
    have Zv: "?Z ! p = GY ?b (zs ! (p - t)) (zs ! p)" using Zp False by simp
    note V = GYv [OF bm z2q [OF pt] z2q [OF p]]
    have "unat (?Z ! p) mod unat q
        = (2 * be ?b * unat (roots ! (m + ?b)) * c * unat ?v) mod unat q"
      unfolding Zv using undo_nat(2) [OF F1 F2 H1 H2] V by blast
    also have "\<dots> = (c' * unat ?v) mod unat q" using cY [OF bm] by (rule scale_mod)
    finally show ?thesis using V unfolding Zv by simp
  qed
  qed
qed

lemma MultiplyMod_unat:
  assumes "0 < unat q"
  shows "unat (MultiplyMod a b q) = (unat a * unat b) mod unat q"
proof -
  have "(unat a * unat b) mod unat q < unat q" using assms by simp
  then have "(unat a * unat b) mod unat q < 2 ^ 64" using unat_lt64 [of q] by simp
  then show ?thesis unfolding MultiplyMod_def by (simp add: unat_of_nat)
qed

lemma inv_level_undo:
  assumes q0: "0 < unat q" and q62: "unat q < 2 ^ 62" and tw: "unat tw = 2 * unat q"
    and ftab: "\<forall>b<m. roots ! (m + b) < q
                \<and> unat (precon ! (m + b)) = (unat (roots ! (m + b)) * 2 ^ 64) div unat q"
    and itab: "\<forall>b<m. inv_roots ! (idx + b) < q
                \<and> (unat (inv_roots ! (idx + b)) * unat (roots ! (m + b))) mod unat q = 1"
    and t: "0 < t" and len: "length es = 2 * t * m" and es4: "in4q q es"
    and sc: "scaled q c zs (fwd_level q tw roots precon m t es)"
  shows "scaled q (2 * c) (inv_level q tw inv_roots m t idx zs) es"
  unfolding inv_level_def
proof (rule level_undo [OF q0 q62 tw ftab t len es4 sc,
        where al = 1 and be = "\<lambda>b. unat (inv_roots ! (idx + b))"])
  fix x y :: u64
  assume x: "unat x < 2 * unat q" and y: "unat y < 2 * unat q"
  show "unat (invX tw x y) < 2 * unat q
      \<and> unat (invX tw x y) mod unat q = (1 * (unat x + unat y)) mod unat q"
    using inv_values(1,2) [OF q0 q62 tw x y] by simp
next
  fix b and x y :: u64
  assume b: "b < m" and x: "unat x < 2 * unat q" and y: "unat y < 2 * unat q"
  have V: "inv_roots ! (idx + b) < q" using itab b by simp
  show "unat (invY q tw (inv_roots ! (idx + b)) x y) < 2 * unat q
      \<and> (unat (invY q tw (inv_roots ! (idx + b)) x y) + unat (inv_roots ! (idx + b)) * unat y)
            mod unat q
          = (unat (inv_roots ! (idx + b)) * unat x) mod unat q"
    using inv_values(3,4) [OF q0 q62 tw x y V] by simp
next
  show "(2 * 1 * c) mod unat q = (2 * c) mod unat q" by simp
next
  fix b assume b: "b < m"
  let ?V = "unat (inv_roots ! (idx + b))" and ?W = "unat (roots ! (m + b))"
  have VW: "(?V * ?W) mod unat q = 1" using itab b by simp
  have "2 * ?V * ?W * c = (?V * ?W) * (2 * c)" by (simp add: algebra_simps)
  also have "((?V * ?W) * (2 * c)) mod unat q = (((?V * ?W) mod unat q) * (2 * c)) mod unat q"
    by (simp only: mod_mult_left_eq)
  also have "\<dots> = (2 * c) mod unat q" unfolding VW by simp
  finally show "(2 * ?V * ?W * c) mod unat q = (2 * c) mod unat q" .
qed

lemma inv_suffix_undo:
  assumes q0: "0 < unat q" and q62: "unat q < 2 ^ 62" and tw: "unat tw = 2 * unat q"
    and ftab: "forward_tables_ok k q roots precon"
    and itab: "inverse_tables_ok k q roots inv_roots"
    and len: "length es = 2 ^ k" and es4: "in4q q es"
    and a: "a < k"
    and sc: "scaled q c zs (fwd_prefix q tw roots precon k (Suc a) es)"
  shows "scaled q (c * 2 ^ a) (inv_suffix q tw inv_roots k a zs)
           (fwd_prefix q tw roots precon k 1 es)"
  using a sc
proof (induction a arbitrary: c zs)
  case 0
  then show ?case by simp
next
  case (Suc a)
  have ak: "Suc a < k" using Suc.prems by simp
  let ?m = "(2::nat) ^ Suc a" and ?t = "(2::nat) ^ (k - Suc (Suc a))"
  let ?idx = "(2::nat) ^ k - 2 ^ Suc (Suc a) + 1"
  let ?st = "fwd_prefix q tw roots precon k (Suc a) es"
  have st4: "in4q q ?st"
    using fwd_prefix_in4q [OF q0 q62 tw ftab len es4, of "Suc a"] ak by simp
  have stl: "length ?st = 2 * ?t * ?m" using pow2_split [OF ak] len by simp
  have ft: "\<forall>b<?m. roots ! (?m + b) < q
                \<and> unat (precon ! (?m + b)) = (unat (roots ! (?m + b)) * 2 ^ 64) div unat q"
    using fwd_tables_level [OF ftab ak] by simp
  have it: "\<forall>b<?m. inv_roots ! (?idx + b) < q
                \<and> (unat (inv_roots ! (?idx + b)) * unat (roots ! (?m + b))) mod unat q = 1"
    using inv_tables_level [OF itab ak] by simp
  have sc': "scaled q c zs (fwd_level q tw roots precon ?m ?t ?st)"
    using Suc.prems(2) by simp
  have t0: "0 < ?t" by simp
  have "scaled q (2 * c) (inv_level q tw inv_roots ?m ?t ?idx zs) ?st"
    by (rule inv_level_undo [OF q0 q62 tw ft it t0 stl st4 sc'])
  then have "scaled q (2 * c * 2 ^ a)
      (inv_suffix q tw inv_roots k a (inv_level q tw inv_roots ?m ?t ?idx zs))
      (fwd_prefix q tw roots precon k 1 es)"
    using ak by (intro Suc.IH) simp_all
  then show ?case by (simp add: mult.assoc mult.left_commute)
qed

lemma inv_final_undo:
  assumes k: "1 \<le> k" and q0: "0 < unat q" and q62: "unat q < 2 ^ 62"
    and tw: "unat tw = 2 * unat q"
    and ftab: "forward_tables_ok k q roots precon"
    and itab: "inverse_tables_ok k q roots inv_roots"
    and len: "length es = 2 ^ k" and es4: "in4q q es"
    and n: "inv_n < q" and nk: "(unat inv_n * 2 ^ k) mod unat q = 1"
    and sc: "scaled q (2 ^ (k - 1)) zs (fwd_prefix q tw roots precon k 1 es)"
  shows "scaled q 1
           (inv_final q tw inv_n (MultiplyMod inv_n (inv_roots ! (2 ^ k - 1)) q) (2 ^ (k - 1)) zs) es"
  unfolding inv_final_def
proof (rule level_undo [where m = 1 and roots = roots and precon = precon and c = "2 ^ (k - 1)"
        and al = "unat inv_n"
        and be = "\<lambda>b. unat (MultiplyMod inv_n (inv_roots ! (2 ^ k - 1)) q)",
        OF q0 q62 tw])
  let ?V = "inv_roots ! (2 ^ k - 1)"
  let ?nw = "MultiplyMod inv_n ?V q"
  have k0: "0 < k" using k by simp
  have "unat q \<noteq> 1" using nk by auto
  then have one: "1 mod unat q = 1" using q0 by simp
  have kk: "(2::nat) * 2 ^ (k - 1) = 2 ^ k" using k by (simp flip: power_Suc)
  have f0: "\<forall>b<2 ^ 0. 2 ^ 0 + b < length roots \<and> 2 ^ 0 + b < length precon
            \<and> roots ! (2 ^ 0 + b) < q
            \<and> unat (precon ! (2 ^ 0 + b)) = (unat (roots ! (2 ^ 0 + b)) * 2 ^ 64) div unat q"
    by (rule fwd_tables_level [OF ftab k0])
  show "\<forall>b<1. roots ! (1 + b) < q
            \<and> unat (precon ! (1 + b)) = (unat (roots ! (1 + b)) * 2 ^ 64) div unat q"
    using f0 by simp
  have i0: "\<forall>b<2 ^ 0. 2 ^ k - 2 ^ Suc 0 + 1 + b < length inv_roots
            \<and> inv_roots ! (2 ^ k - 2 ^ Suc 0 + 1 + b) < q
            \<and> (unat (inv_roots ! (2 ^ k - 2 ^ Suc 0 + 1 + b)) * unat (roots ! (2 ^ 0 + b)))
                  mod unat q = 1"
    by (rule inv_tables_level [OF itab k0])
  have "(2::nat) ^ 1 \<le> 2 ^ k" using k by (intro power_increasing) simp_all
  then have ix: "(2::nat) ^ k - 2 ^ Suc 0 + 1 + 0 = 2 ^ k - 1" by simp
  have V: "?V < q" and VW: "(unat ?V * unat (roots ! 1)) mod unat q = 1"
    using i0 ix by simp_all
  have nwu: "unat ?nw = (unat inv_n * unat ?V) mod unat q" by (rule MultiplyMod_unat [OF q0])
  have nw: "?nw < q" unfolding word_less_nat_alt nwu using q0 by simp
  show "0 < (2::nat) ^ (k - 1)" by simp
  show "length es = 2 * 2 ^ (k - 1) * 1" using len kk by simp
  show "in4q q es" by (rule es4)
  show "scaled q (2 ^ (k - 1)) zs (fwd_level q tw roots precon 1 (2 ^ (k - 1)) es)"
    using sc by simp
  show "unat (finX q tw inv_n x y) < 2 * unat q
      \<and> unat (finX q tw inv_n x y) mod unat q = (unat inv_n * (unat x + unat y)) mod unat q"
    if "unat x < 2 * unat q" "unat y < 2 * unat q" for x y
    using finX_values [OF q0 q62 tw that n] by simp
  show "unat (invY q tw ?nw x y) < 2 * unat q
      \<and> (unat (invY q tw ?nw x y) + unat ?nw * unat y) mod unat q = (unat ?nw * unat x) mod unat q"
    if "b < 1" "unat x < 2 * unat q" "unat y < 2 * unat q" for b x y
    using inv_values(3,4) [OF q0 q62 tw that(2,3) nw] by simp
  have "2 * unat inv_n * 2 ^ (k - 1) = unat inv_n * (2 * 2 ^ (k - 1))" by simp
  then have e1: "2 * unat inv_n * 2 ^ (k - 1) = unat inv_n * 2 ^ k" unfolding kk .
  show "(2 * unat inv_n * 2 ^ (k - 1)) mod unat q = 1 mod unat q"
    unfolding e1 nk one ..
  show "(2 * unat ?nw * unat (roots ! (1 + b)) * 2 ^ (k - 1)) mod unat q = 1 mod unat q"
    if "b < 1" for b
  proof -
    have b0: "b = 0" using that by simp
    let ?W = "unat (roots ! 1)"
    have "2 * unat ?nw * ?W * 2 ^ (k - 1) = unat ?nw * (?W * (2 * 2 ^ (k - 1)))" by simp
    then have e2: "2 * unat ?nw * ?W * 2 ^ (k - 1) = unat ?nw * (?W * 2 ^ k)" unfolding kk .
    have "(unat ?nw * (?W * 2 ^ k)) mod unat q
        = ((unat inv_n * unat ?V) * (?W * 2 ^ k)) mod unat q"
      unfolding nwu by (simp only: mod_mult_left_eq)
    also have "(unat inv_n * unat ?V) * (?W * 2 ^ k) = (unat inv_n * 2 ^ k) * (unat ?V * ?W)"
      by (simp add: algebra_simps)
    also have "((unat inv_n * 2 ^ k) * (unat ?V * ?W)) mod unat q
        = (((unat inv_n * 2 ^ k) mod unat q) * ((unat ?V * ?W) mod unat q)) mod unat q"
      by (simp only: mod_mult_eq)
    also have "\<dots> = 1 mod unat q" unfolding nk VW by simp
    finally have "(unat ?nw * (?W * 2 ^ k)) mod unat q = 1 mod unat q" .
    then have "(2 * unat ?nw * ?W * 2 ^ (k - 1)) mod unat q = 1 mod unat q"
      by (simp only: e2)
    moreover have "roots ! (1 + b) = roots ! 1" unfolding b0 by simp
    ultimately show ?thesis by (simp only:)
  qed
qed

lemma scaled_one_reduce:
  assumes q0: "0 < unat q" and sc: "scaled q 1 fs es" and lt: "\<forall>x\<in>set es. x < q"
  shows "in4q q fs" and "map (\<lambda>x. x mod q) fs = es"
proof -
  have len: "length fs = length es" using sc unfolding scaled_def by simp
  have b: "unat (fs ! p) < 2 * unat q" and c: "unat (fs ! p) mod unat q = unat (es ! p) mod unat q"
    if "p < length es" for p
    using sc that unfolding scaled_def by simp_all
  show "in4q q fs"
    unfolding in4q_def all_set_conv_all_nth using b len by fastforce
  show "map (\<lambda>x. x mod q) fs = es"
  proof (rule nth_equalityI)
    show "length (map (\<lambda>x. x mod q) fs) = length es" using len by simp
    fix p assume "p < length (map (\<lambda>x. x mod q) fs)"
    then have p: "p < length es" using len by simp
    have "es ! p < q" using lt p by simp
    then have "unat (es ! p) mod unat q = unat (es ! p)" by (simp add: word_less_nat_alt)
    then have "unat (fs ! p mod q) = unat (es ! p)" using c [OF p] by (simp add: unat_mod)
    then show "map (\<lambda>x. x mod q) fs ! p = es ! p"
      using p len by (simp add: word_unat_eq_iff)
  qed
qed

lemma scaled_of_reduced:
  assumes q0: "0 < unat q"
  shows "scaled q 1 (map (\<lambda>x. x mod q) es) es"
  unfolding scaled_def
proof (intro conjI allI impI)
  show "length (map (\<lambda>x. x mod q) es) = length es" by simp
  fix p assume p: "p < length es"
  have "unat (es ! p mod q) < unat q" using q0 by (simp add: unat_mod)
  then show "unat (map (\<lambda>x. x mod q) es ! p) < 2 * unat q" using p by simp
  show "unat (map (\<lambda>x. x mod q) es ! p) mod unat q = (1 * unat (es ! p)) mod unat q"
    using p by (simp add: unat_mod)
qed

text \<open>
  Claim C1.  For every admissible degree \<open>N = 2 ^ k\<close> and modulus \<open>q\<close> (\<open>q < 2 ^ 62\<close>,
  \<open>q mod 2N = 1\<close>; primality of \<open>q\<close> is not needed), with correctly built forward and inverse
  tables, and every input vector of length \<open>N\<close> with all elements in \<open>[0, q)\<close>: the forward
  transform returns a vector, and the inverse transform applied to it returns exactly the
  input.
\<close>

theorem inverse_of_forward:
  assumes k: "1 \<le> k" and deg: "unat degree = 2 ^ k"
    and q1: "1 < unat q" and q62: "unat q < 2 ^ 62"
    and qm: "unat q mod (2 * 2 ^ k) = 1"
    and ftab: "forward_tables_ok k q roots precon"
    and itab: "inverse_tables_ok k q roots inv_roots"
    and len: "length input = 2 ^ k" and inp: "\<forall>x\<in>set input. x < q"
  shows "\<exists>mid. ForwardTransformToBitReverse64 degree q roots precon input = Some (Inr mid)
             \<and> InverseTransformToBitReverse64 degree q inv_roots mid = Inr input"
proof -
  let ?tw = "push_bit 1 q"
  let ?mid = "map (\<lambda>x. x mod q) (fwd_prefix q ?tw roots precon k k input)"
  let ?zs1 = "inv_suffix q ?tw inv_roots k (k - 1) ?mid"
  let ?V = "inv_roots ! (2 ^ k - 1)"
  note A = admissible_facts [OF k deg q1 q62 qm]
  have q0: "0 < unat q" using q1 by simp
  have tw: "unat ?tw = 2 * unat q" using q62 by (rule twice_mod_unat)
  have i4: "in4q q input" using inp by (rule lt_q_in4q)
  have F: "ForwardTransformToBitReverse64 degree q roots precon input = Some (Inr ?mid)"
    by (rule forward_value [OF k deg q1 q62 qm ftab len i4])
  have lmid: "length ?mid = 2 ^ k" using len by simp
  have k1: "k - 1 < k" and Sk: "Suc (k - 1) = k" using k by simp_all
  \<comment> \<open>the levels \<open>m = N/2, \<dots>, 2\<close>\<close>
  have "inv_loop_m q ?tw inv_roots (2 ^ (k - 1)) (2 ^ (k - Suc (k - 1)))
          (2 ^ k - 2 ^ Suc (k - 1) + 1) ?mid = Inr (2 ^ k - 1, ?zs1)"
    by (rule inv_loop_m_value [OF itab lmid k1])
  moreover have "unat degree div 2 = 2 ^ (k - 1)"
    unfolding deg using pow2_half [of 0 k] k by simp
  ultimately have L: "inv_loop_m q ?tw inv_roots (unat degree div 2) 1 1 ?mid
      = Inr (2 ^ k - 1, ?zs1)"
    unfolding Sk by simp
  have "scaled q 1 ?mid (fwd_prefix q ?tw roots precon k (Suc (k - 1)) input)"
    unfolding Sk by (rule scaled_of_reduced [OF q0])
  then have "scaled q (1 * 2 ^ (k - 1)) ?zs1 (fwd_prefix q ?tw roots precon k 1 input)"
    by (rule inv_suffix_undo [OF q0 q62 tw ftab itab len i4 k1])
  then have sc1: "scaled q (2 ^ (k - 1)) ?zs1 (fwd_prefix q ?tw roots precon k 1 input)"
    by simp
  \<comment> \<open>the last level\<close>
  have il: "length inv_roots = 2 ^ k" using itab by (simp add: inverse_tables_ok_def)
  have ld: "load inv_roots (2 ^ k - 1) = Inr ?V" using il by (simp add: load_def)
  from InverseMod_pow2 [OF deg q1 qm] obtain inv_n
    where iv: "InverseMod degree q = Inr inv_n" and n: "inv_n < q"
      and nk: "(unat inv_n * 2 ^ k) mod unat q = 1" by blast
  let ?nw = "MultiplyMod inv_n ?V q"
  let ?fs = "inv_final q ?tw inv_n ?nw (2 ^ (k - 1)) ?zs1"
  have nw: "?nw < q"
    unfolding word_less_nat_alt MultiplyMod_unat [OF q0] using q0 by simp
  have kk: "(2::nat) * 2 ^ (k - 1) = 2 ^ k" using k by (simp flip: power_Suc)
  have "inv_final_loop q ?tw inv_n ?nw (2 ^ (k - 1)) (2 * 2 ^ (k - 1)) 0 (2 ^ (k - 1)) ?zs1
      = Inr ?fs"
    using n nw len kk by (intro inv_final_value) simp_all
  then have FL: "inv_final_loop q ?tw inv_n ?nw (unat degree div 2) (unat degree) 0
      (unat degree div 2) ?zs1 = Inr ?fs"
    unfolding deg \<open>unat degree div 2 = 2 ^ (k - 1)\<close> [unfolded deg] kk .
  have sc: "scaled q 1 ?fs input"
    by (rule inv_final_undo [OF k q0 q62 tw ftab itab len i4 n nk sc1])
  note R = scaled_one_reduce [OF q0 sc inp]
  have "reduce_loop q ?tw (length ?fs) 0 ?fs = Inr (map (\<lambda>x. x mod q) ?fs)"
    by (rule reduce_loop_all [OF q0 tw R(1)])
  then have RD: "reduce_loop q ?tw (unat degree) 0 ?fs = Inr input"
    unfolding deg R(2) using len by simp
  have "InverseTransformToBitReverse64 degree q inv_roots ?mid = Inr input"
    unfolding InverseTransformToBitReverse64_def Let_def
    by (simp only: A(2) not_True_eq_False if_False L sum.case prod.case ld iv FL RD)
  then show ?thesis using F by blast
qed

lemma example_inverse_tables: "inverse_tables_ok 3 17 [1, 13, 9, 15, 3, 5, 10, 11] [1, 6, 7, 12, 14, 2, 8, 4]"
  unfolding inverse_tables_ok_def
proof (intro conjI ballI)
  show "length [1, 6, 7, 12, 14, 2, 8, 4 :: u64] = 2 ^ 3" by simp
next
  fix a b :: nat assume "a \<in> {0..<3}" "b \<in> {0..<2 ^ a}"
  then consider "a = 0" "b = 0" | "a = 1" "b = 0" | "a = 1" "b = 1"
    | "a = 2" "b = 0" | "a = 2" "b = 1" | "a = 2" "b = 2" | "a = 2" "b = 3"
    by (auto simp: less_Suc_eq numeral_3_eq_3 numeral_2_eq_2)
  then show "[1, 6, 7, 12, 14, 2, 8, 4 :: u64] ! (2 ^ 3 - 2 ^ Suc a + 1 + b) < 17"
    by cases simp_all
next
  fix a b :: nat assume "a \<in> {0..<3}" "b \<in> {0..<2 ^ a}"
  then consider "a = 0" "b = 0" | "a = 1" "b = 0" | "a = 1" "b = 1"
    | "a = 2" "b = 0" | "a = 2" "b = 1" | "a = 2" "b = 2" | "a = 2" "b = 3"
    by (auto simp: less_Suc_eq numeral_3_eq_3 numeral_2_eq_2)
  then show "unat ([1, 6, 7, 12, 14, 2, 8, 4 :: u64] ! (2 ^ 3 - 2 ^ Suc a + 1 + b))
       * unat ([1, 13, 9, 15, 3, 5, 10, 11 :: u64] ! (2 ^ a + b)) mod unat (17::u64) = 1"
    by cases simp_all
qed

theorem inverse_of_forward_witness:
  "forward_tables_ok 3 17 [1, 13, 9, 15, 3, 5, 10, 11]
     [1085102592571150095, 14106333703424951235, 9765923333140350855, 16276538888567251425,
      3255307777713450285, 5425512962855750475, 10851025925711500950, 11936128518282651045]
   \<and> inverse_tables_ok 3 17 [1, 13, 9, 15, 3, 5, 10, 11] [1, 6, 7, 12, 14, 2, 8, 4]
   \<and> unat (8::u64) = 2 ^ 3 \<and> unat (17::u64) mod (2 * 2 ^ 3) = 1
   \<and> (\<exists>mid. ForwardTransformToBitReverse64 8 17 [1, 13, 9, 15, 3, 5, 10, 11]
           [1085102592571150095, 14106333703424951235, 9765923333140350855, 16276538888567251425,
      3255307777713450285, 5425512962855750475, 10851025925711500950, 11936128518282651045]
           [1, 2, 3, 4, 5, 6, 7, 8] = Some (Inr mid)
         \<and> InverseTransformToBitReverse64 8 17 [1, 6, 7, 12, 14, 2, 8, 4] mid = Inr [1, 2, 3, 4, 5, 6, 7, 8])"
proof -
  have t: "forward_tables_ok 3 17 [1, 13, 9, 15, 3, 5, 10, 11]
     [1085102592571150095, 14106333703424951235, 9765923333140350855, 16276538888567251425,
      3255307777713450285, 5425512962855750475, 10851025925711500950, 11936128518282651045]"
    by (simp add: forward_tables_ok_def atLeastLessThan_upt upt_conv_Cons)
  note i = example_inverse_tables
  from inverse_of_forward [of 3 8 17 "[1, 13, 9, 15, 3, 5, 10, 11]"
     "[1085102592571150095, 14106333703424951235, 9765923333140350855, 16276538888567251425,
      3255307777713450285, 5425512962855750475, 10851025925711500950, 11936128518282651045]"
     "[1, 6, 7, 12, 14, 2, 8, 4]" "[1, 2, 3, 4, 5, 6, 7, 8]", OF _ _ _ _ _ t i]
  show ?thesis using t i by simp
qed

end
